theory Spec2Isabelle
  imports Main
begin

section \<open>Data model (isap.h)\<close>

text \<open>
  The sentinel capacity \<^verbatim>\<open>const int INF = 1e9\<close> (\<open>INF_cap\<close> here). Capacities, flows and labels are C++
  \<^verbatim>\<open>int\<close>, 32 bits wide; they are modelled as integers, node handles and vector
  positions as naturals.
\<close>

definition INF_cap :: int where
  "INF_cap = 1000000000"

text \<open>
  The value a 32-bit \<^verbatim>\<open>int\<close> holds after an addition, subtraction or negation whose exact
  result is \<open>x\<close>: it wraps around modulo \<open>2\<^sup>3\<^sup>2\<close> into the range from \<open>-2\<^sup>3\<^sup>1\<close> to
  \<open>2\<^sup>3\<^sup>1 - 1\<close>. It is applied where the source accumulates sums of its inputs: the
  returned flow, the demands and their total, and \<^verbatim>\<open>upper - lower\<close>. The flow of an edge
  record stays between minus the capacity of its edge and that capacity (\<open>flow_ok\<close> below), so
  the arithmetic on the records of edges with \<^verbatim>\<open>int\<close> capacities stays in range.
\<close>

definition wrap32 :: "int \<Rightarrow> int" where
  "wrap32 x = (x + 2147483648) mod 4294967296 - 2147483648"

text \<open>\<^verbatim>\<open>struct Edge { int to; int cap; int flow; int rev; }\<close> (the field \<^verbatim>\<open>rev\<close> is
  called \<open>rev_idx\<close> here, \<open>rev\<close> being list reversal).\<close>

record Edge =
  to :: nat
  cap :: int
  flow :: int
  rev_idx :: nat

text \<open>\<^verbatim>\<open>class Isap\<close>: the node count \<^verbatim>\<open>n\<close>, the adjacency vectors and the two scratch
  vectors.\<close>

record Isap =
  n_nodes :: nat
  adj :: "Edge list list"
  level :: "int list"
  gap :: "int list"

text \<open>
  Reading or writing a \<^verbatim>\<open>std::vector\<close> outside its bounds is undefined behaviour in C++.
  The model stops with an error value at the first such access to \<^verbatim>\<open>gap\<close> (whose index
  is a computed label) and at a node handle that is not a node. A second reading of the
  main loop (\<open>isap_raw\<close> below) carries the access to \<^verbatim>\<open>gap\<close> out and goes on, as the
  compiled program does.
\<close>

datatype error = GapOutOfBounds int | NodeOutOfBounds nat

section \<open>Graph construction (isap.cc)\<close>

text \<open>\<^verbatim>\<open>Isap::Isap(int n) : adj(n), level(n), gap(n)\<close>\<close>

definition Isap_new :: "nat \<Rightarrow> Isap" where
  "Isap_new k = \<lparr>n_nodes = k, adj = replicate k [], level = replicate k 0, gap = replicate k 0\<rparr>"

text \<open>
  \<^verbatim>\<open>adj[u].push_back({v, cap, 0, (int)adj[v].size()});\<close>
  \<^verbatim>\<open>adj[v].push_back({u, 0, 0, (int)adj[u].size() - 1});\<close>
\<close>

definition add_edge :: "Isap \<Rightarrow> nat \<Rightarrow> nat \<Rightarrow> int \<Rightarrow> Isap" where
  "add_edge g u v c =
     (let a1 = (adj g)[u := adj g ! u @ [\<lparr>to = v, cap = c, flow = 0, rev_idx = length (adj g ! v)\<rparr>]];
          a2 = a1[v := a1 ! v @ [\<lparr>to = u, cap = 0, flow = 0, rev_idx = length (a1 ! u) - 1\<rparr>]]
      in g\<lparr>adj := a2\<rparr>)"

section \<open>Labeling phase: \<^verbatim>\<open>Isap::bfs\<close>\<close>

text \<open>
  The body of \<^verbatim>\<open>for (auto& e : adj[u])\<close> for the node \<open>u\<close> taken from the queue; the
  state is the level vector, the gap vector and the queue.
\<close>

fun bfs_edges ::
  "Edge list list \<Rightarrow> nat \<Rightarrow> Edge list \<Rightarrow> int list \<times> int list \<times> nat list
     \<Rightarrow> error + int list \<times> int list \<times> nat list" where
  "bfs_edges a u [] st = Inr st"
| "bfs_edges a u (e # es) (lev, gp, q) =
     (let v = to e in
      if \<not> v < length lev then Inl (NodeOutOfBounds v)
      else if lev ! v = - 1 \<and> cap (a ! v ! rev_idx e) > flow (a ! v ! rev_idx e) then
        (let lv = lev ! u + 1 in
         if lv < 0 \<or> int (length gp) \<le> lv then Inl (GapOutOfBounds lv)
         else bfs_edges a u es (lev[v := lv], gp[nat lv := gp ! nat lv + 1], q @ [v]))
      else bfs_edges a u es (lev, gp, q))"

definition unlabeled :: "int list \<Rightarrow> nat" where
  "unlabeled lev = length (filter (\<lambda>l. l = - 1) lev)"

lemma unlabeled_update:
  "v < length lev \<Longrightarrow> lev ! v = - 1 \<Longrightarrow> l \<noteq> - 1 \<Longrightarrow> Suc (unlabeled (lev[v := l])) = unlabeled lev"
proof (induction lev arbitrary: v)
  case Nil
  then show ?case by simp
next
  case (Cons x xs)
  then show ?case
    by (cases v) (auto simp: unlabeled_def)
qed

lemma bfs_edges_measure:
  "bfs_edges a u es (lev, gp, q) = Inr (lev', gp', q') \<Longrightarrow>
     2 * unlabeled lev' + length q' \<le> 2 * unlabeled lev + length q + (length q' - length q) \<and>
     2 * unlabeled lev' + length q' \<le> 2 * unlabeled lev + length q"
proof (induction es arbitrary: lev gp q)
  case Nil
  then show ?case by simp
next
  case (Cons e es)
  show ?case
  proof (cases "to e < length lev \<and> lev ! to e = - 1
      \<and> cap (a ! to e ! rev_idx e) > flow (a ! to e ! rev_idx e)")
    case True
    let ?lv = "lev ! u + 1"
    from True Cons.prems have ok: "\<not> (?lv < 0 \<or> int (length gp) \<le> ?lv)"
      by (auto simp: Let_def split: if_splits)
    with True Cons.prems have rec:
      "bfs_edges a u es (lev[to e := ?lv], gp[nat ?lv := gp ! nat ?lv + 1], q @ [to e]) = Inr (lev', gp', q')"
      by (simp add: Let_def)
    from ok have "?lv \<noteq> - 1" by auto
    with True have "Suc (unlabeled (lev[to e := ?lv])) = unlabeled lev"
      by (intro unlabeled_update) auto
    with Cons.IH[OF rec] show ?thesis by auto
  next
    case False
    with Cons.prems have "bfs_edges a u es (lev, gp, q) = Inr (lev', gp', q')"
      by (auto simp: Let_def split: if_splits)
    from Cons.IH[OF this] show ?thesis .
  qed
qed

text \<open>The \<^verbatim>\<open>while (!q.empty())\<close> loop.\<close>

function bfs_loop :: "Edge list list \<Rightarrow> int list \<times> int list \<times> nat list \<Rightarrow> error + int list \<times> int list" where
  "bfs_loop a (lev, gp, []) = Inr (lev, gp)"
| "bfs_loop a (lev, gp, u # q) =
     (case bfs_edges a u (a ! u) (lev, gp, q) of
        Inl err \<Rightarrow> Inl err
      | Inr st \<Rightarrow> bfs_loop a st)"
  by pat_completeness auto
termination
proof (relation "measure (\<lambda>(a, lev, gp, q). 2 * unlabeled lev + length q)")
  show "wf (measure (\<lambda>(a, lev, gp, q). 2 * unlabeled lev + length q))" by simp
next
  fix a :: "Edge list list" and lev gp :: "int list" and u :: nat and q :: "nat list"
    and st :: "int list \<times> int list \<times> nat list"
  assume r: "bfs_edges a u (a ! u) (lev, gp, q) = Inr st"
  obtain lev' gp' q' where st: "st = (lev', gp', q')" by (cases st) auto
  from bfs_edges_measure[OF r[unfolded st]]
  show "((a, st), (a, lev, gp, u # q)) \<in> measure (\<lambda>(a, lev, gp, q). 2 * unlabeled lev + length q)"
    by (simp add: st)
qed

text \<open>
  \<^verbatim>\<open>fill(level, -1); fill(gap, 0); q.push(t); level[t] = 0; gap[0] = 1;\<close> and the loop.
\<close>

definition bfs :: "Isap \<Rightarrow> nat \<Rightarrow> error + Isap" where
  "bfs g t =
     (if \<not> t < length (level g) then Inl (NodeOutOfBounds t)
      else if length (gap g) = 0 then Inl (GapOutOfBounds 0)
      else
        case bfs_loop (adj g)
               ((replicate (length (level g)) (- 1))[t := 0],
                (replicate (length (gap g)) 0)[0 := 1], [t]) of
          Inl err \<Rightarrow> Inl err
        | Inr (lev, gp) \<Rightarrow> Inr (g\<lparr>level := lev, gap := gp\<rparr>))"

section \<open>Max-flow computation: \<^verbatim>\<open>Isap::isap\<close>\<close>

text \<open>The first loop of the augmentation: the bottleneck residual capacity of the path.\<close>

definition bottleneck :: "Edge list list \<Rightarrow> nat list \<Rightarrow> nat list \<Rightarrow> int" where
  "bottleneck a cur path =
     fold (\<lambda>p f. min f (cap (a ! p ! (cur ! p)) - flow (a ! p ! (cur ! p)))) path INF_cap"

text \<open>
  One round of the second loop:
  \<^verbatim>\<open>int rev = adj[u][cur[u]].rev; adj[u][cur[u]].flow += f; adj[adj[u][cur[u]].to][rev].flow -= f;\<close>
\<close>

definition push :: "nat list \<Rightarrow> int \<Rightarrow> nat \<Rightarrow> Edge list list \<Rightarrow> Edge list list" where
  "push cur f p a =
     (let r = rev_idx (a ! p ! (cur ! p));
          a1 = a[p := (a ! p)[cur ! p := (a ! p ! (cur ! p))\<lparr>flow := flow (a ! p ! (cur ! p)) + f\<rparr>]];
          v = to (a1 ! p ! (cur ! p))
      in a1[v := (a1 ! v)[r := (a1 ! v ! r)\<lparr>flow := flow (a1 ! v ! r) - f\<rparr>]])"

definition augment :: "Edge list list \<Rightarrow> nat list \<Rightarrow> nat list \<Rightarrow> int \<Rightarrow> Edge list list" where
  "augment a cur path f = fold (push cur f) path a"

text \<open>
  \<^verbatim>\<open>for (; cur[u] < adj[u].size(); cur[u]++)\<close>: the scan for the first admissible edge,
  over the edges from the current-arc pointer \<open>c\<close> on; it returns the final pointer and
  \<^verbatim>\<open>advanced\<close>.
\<close>

fun scan :: "int list \<Rightarrow> int \<Rightarrow> Edge list \<Rightarrow> nat \<Rightarrow> nat \<times> bool" where
  "scan lev lu [] c = (c, False)"
| "scan lev lu (e # es) c =
     (if cap e > flow e \<and> lu = lev ! to e + 1 then (c, True) else scan lev lu es (Suc c))"

text \<open>\<^verbatim>\<open>int min_level = n; for (auto &e : adj[u]) if (e.cap > e.flow) min_level = min(...)\<close>\<close>

definition min_level :: "Isap \<Rightarrow> nat \<Rightarrow> int" where
  "min_level g u =
     fold (\<lambda>e m. if cap e > flow e then min m (level g ! to e) else m) (adj g ! u) (int (n_nodes g))"

text \<open>
  The state of the main loop: the graph, the current-arc pointers \<^verbatim>\<open>cur\<close>, the
  \<^verbatim>\<open>path\<close>, the current node \<^verbatim>\<open>u\<close> and the accumulated \<^verbatim>\<open>flow\<close>.
\<close>

record search =
  graph :: Isap
  cur :: "nat list"
  path :: "nat list"
  node :: nat
  total :: int

text \<open>
  The block \<^verbatim>\<open>if (u == t) { ... }\<close>: the bottleneck of the path is pushed along it and
  added to the flow (\<^verbatim>\<open>flow += f\<close>, a 32-bit addition), and the search starts again at
  the source with an empty path.
\<close>

definition augment_at_sink :: "nat \<Rightarrow> nat \<Rightarrow> search \<Rightarrow> search" where
  "augment_at_sink s t st =
     (if node st = t then
        let f = bottleneck (adj (graph st)) (cur st) (path st) in
        st\<lparr>graph := (graph st)\<lparr>adj := augment (adj (graph st)) (cur st) (path st) f\<rparr>,
           path := [], node := s, total := wrap32 (total st + f)\<rparr>
      else st)"

text \<open>
  The block \<^verbatim>\<open>if (!advanced) { ... }\<close>: \<^verbatim>\<open>if (--gap[level[u]] == 0) break;\<close>
  \<^verbatim>\<open>gap[level[u] = min_level + 1]++; cur[u] = 0;\<close> and the step back along the path. It
  leaves the loop (\<open>Inl\<close>) at \<^verbatim>\<open>break\<close>, with the flow and the graph, or at an index
  outside \<^verbatim>\<open>gap\<close>, with the error.
\<close>

definition relabel :: "search \<Rightarrow> (error + int \<times> Isap) + search" where
  "relabel st =
     (let g = graph st;
          u = node st;
          ml = min_level g u;
          lu = level g ! u
      in
        if lu < 0 \<or> int (length (gap g)) \<le> lu then Inl (Inl (GapOutOfBounds lu))
        else
          let gp = (gap g)[nat lu := gap g ! nat lu - 1] in
          if gp ! nat lu = 0 then Inl (Inr (total st, g\<lparr>gap := gp\<rparr>))
          else if ml + 1 < 0 \<or> int (length gp) \<le> ml + 1 then Inl (Inl (GapOutOfBounds (ml + 1)))
          else
            Inr (st\<lparr>graph := g\<lparr>level := (level g)[u := ml + 1],
                                gap := gp[nat (ml + 1) := gp ! nat (ml + 1) + 1]\<rparr>,
                    cur := (cur st)[u := 0],
                    path := butlast (path st),
                    node := (if path st = [] then u else last (path st))\<rparr>))"

text \<open>
  One round of \<^verbatim>\<open>while (level[s] < n)\<close>, the loop test included. The round either
  leaves the loop (\<open>Inl\<close>: with the returned flow and the graph when the test fails or
  at \<^verbatim>\<open>break\<close>, with an error at an access outside \<^verbatim>\<open>gap\<close>) or goes on with the next
  state (\<open>Inr\<close>).
\<close>

definition isap_round :: "nat \<Rightarrow> nat \<Rightarrow> search \<Rightarrow> (error + int \<times> Isap) + search" where
  "isap_round s t st =
     (if \<not> level (graph st) ! s < int (n_nodes (graph st)) then Inl (Inr (total st, graph st))
      else
        let st1 = augment_at_sink s t st;
            g = graph st1;
            u = node st1;
            sc = scan (level g) (level g ! u) (drop (cur st1 ! u) (adj g ! u)) (cur st1 ! u)
        in
          if snd sc then
            Inr (st1\<lparr>cur := (cur st1)[u := fst sc], path := path st1 @ [u],
                     node := to (adj g ! u ! fst sc)\<rparr>)
          else relabel (st1\<lparr>cur := (cur st1)[u := fst sc]\<rparr>))"

text \<open>The loop itself. A run that never leaves the loop has the value \<open>None\<close>.\<close>

partial_function (option) isap_loop :: "nat \<Rightarrow> nat \<Rightarrow> search \<Rightarrow> (error + int \<times> Isap) option" where
  "isap_loop s t st =
     (case isap_round s t st of
        Inl res \<Rightarrow> Some res
      | Inr st' \<Rightarrow> isap_loop s t st')"

declare isap_loop.simps [code]

text \<open>
  \<^verbatim>\<open>bfs(t); if (level[s] == -1) return 0; int flow = 0, u = s; vector<int> cur(n, 0);\<close>
  \<^verbatim>\<open>vector<int> path; while ... return flow;\<close> The result is the returned flow and the
  mutated object.
\<close>

definition isap :: "Isap \<Rightarrow> nat \<Rightarrow> nat \<Rightarrow> (error + int \<times> Isap) option" where
  "isap g s t =
     (case bfs g t of
        Inl err \<Rightarrow> Some (Inl err)
      | Inr g1 \<Rightarrow>
          if \<not> s < length (level g1) then Some (Inl (NodeOutOfBounds s))
          else if level g1 ! s = - 1 then Some (Inr (0, g1))
          else isap_loop s t
                 \<lparr>graph = g1, cur = replicate (n_nodes g1) 0, path = [], node = s, total = 0\<rparr>)"

text \<open>
  The run past an access outside \<^verbatim>\<open>gap\<close>. \<^verbatim>\<open>operator[]\<close> checks no bounds: the compiled
  program reads and writes the \<^verbatim>\<open>int\<close> at that distance from the start of the vector's
  storage, a cell of the memory around the vector, and goes on. The definitions below
  are the same loop with these accesses carried out instead of stopped at. The cells
  around the vector are a function \<open>m\<close> from the index to the contents; what they hold
  when a call begins is not determined by the program, so \<open>m\<close> is a parameter of the run.
  An index inside the vector addresses the vector as before.
\<close>

definition gap_get :: "int list \<Rightarrow> (int \<Rightarrow> int) \<Rightarrow> int \<Rightarrow> int" where
  "gap_get gp m i = (if 0 \<le> i \<and> i < int (length gp) then gp ! nat i else m i)"

definition gap_set :: "int list \<Rightarrow> (int \<Rightarrow> int) \<Rightarrow> int \<Rightarrow> int \<Rightarrow> int list \<times> (int \<Rightarrow> int)" where
  "gap_set gp m i x = (if 0 \<le> i \<and> i < int (length gp) then (gp[nat i := x], m) else (gp, m(i := x)))"

text \<open>
  The block \<^verbatim>\<open>if (!advanced) { ... }\<close> with \<^verbatim>\<open>--gap[level[u]]\<close> and
  \<^verbatim>\<open>gap[level[u] = min_level + 1]++\<close> carried out at any index; it leaves the loop only
  at \<^verbatim>\<open>break\<close>.
\<close>

definition relabel_raw :: "search \<Rightarrow> (int \<Rightarrow> int) \<Rightarrow> int \<times> Isap + search \<times> (int \<Rightarrow> int)" where
  "relabel_raw st m =
     (let g = graph st;
          u = node st;
          ml = min_level g u;
          lu = level g ! u;
          (gp, m1) = gap_set (gap g) m lu (gap_get (gap g) m lu - 1)
      in
        if gap_get gp m1 lu = 0 then Inl (total st, g\<lparr>gap := gp\<rparr>)
        else
          let (gp2, m2) = gap_set gp m1 (ml + 1) (gap_get gp m1 (ml + 1) + 1) in
          Inr (st\<lparr>graph := g\<lparr>level := (level g)[u := ml + 1], gap := gp2\<rparr>,
                  cur := (cur st)[u := 0],
                  path := butlast (path st),
                  node := (if path st = [] then u else last (path st))\<rparr>, m2))"

text \<open>One round of the loop, as \<open>isap_round\<close>, with that block.\<close>

definition isap_round_raw :: "nat \<Rightarrow> nat \<Rightarrow> search \<Rightarrow> (int \<Rightarrow> int) \<Rightarrow> int \<times> Isap + search \<times> (int \<Rightarrow> int)" where
  "isap_round_raw s t st m =
     (if \<not> level (graph st) ! s < int (n_nodes (graph st)) then Inl (total st, graph st)
      else
        let st1 = augment_at_sink s t st;
            g = graph st1;
            u = node st1;
            sc = scan (level g) (level g ! u) (drop (cur st1 ! u) (adj g ! u)) (cur st1 ! u)
        in
          if snd sc then
            Inr (st1\<lparr>cur := (cur st1)[u := fst sc], path := path st1 @ [u],
                     node := to (adj g ! u ! fst sc)\<rparr>, m)
          else relabel_raw (st1\<lparr>cur := (cur st1)[u := fst sc]\<rparr>) m)"

text \<open>The loop; a run that never leaves it has the value \<open>None\<close>.\<close>

partial_function (option) isap_loop_raw :: "nat \<Rightarrow> nat \<Rightarrow> search \<Rightarrow> (int \<Rightarrow> int) \<Rightarrow> (int \<times> Isap) option" where
  "isap_loop_raw s t st m =
     (case isap_round_raw s t st m of
        Inl res \<Rightarrow> Some res
      | Inr (st', m') \<Rightarrow> isap_loop_raw s t st' m')"

declare isap_loop_raw.simps [code]

text \<open>
  \<^verbatim>\<open>Isap::isap\<close> with that loop. The labeling phase is the one of \<open>isap\<close>: on a
  well-formed graph its accesses to \<^verbatim>\<open>gap\<close> stay inside the vector (lemma \<open>bfs_ok\<close>
  below).
\<close>

definition isap_raw :: "(int \<Rightarrow> int) \<Rightarrow> Isap \<Rightarrow> nat \<Rightarrow> nat \<Rightarrow> (error + int \<times> Isap) option" where
  "isap_raw m g s t =
     (case bfs g t of
        Inl err \<Rightarrow> Some (Inl err)
      | Inr g1 \<Rightarrow>
          if \<not> s < length (level g1) then Some (Inl (NodeOutOfBounds s))
          else if level g1 ! s = - 1 then Some (Inr (0, g1))
          else map_option Inr (isap_loop_raw s t
                 \<lparr>graph = g1, cur = replicate (n_nodes g1) 0, path = [], node = s, total = 0\<rparr> m))"

text \<open>A graph as a caller builds it: the constructor, then one \<^verbatim>\<open>add_edge\<close> per triple.\<close>

definition build :: "nat \<Rightarrow> (nat \<times> nat \<times> int) list \<Rightarrow> Isap" where
  "build k es = fold (\<lambda>(u, v, c) g. add_edge g u v c) es (Isap_new k)"

section \<open>Feasibility with lower and upper bounds (isap_feasible_flow.cc)\<close>

text \<open>\<^verbatim>\<open>struct OriginalEdge { int u, v, lower, upper; }\<close>\<close>

record OriginalEdge =
  e_u :: nat
  e_v :: nat
  lower :: int
  upper :: int

text \<open>\<^verbatim>\<open>demand[edge.u] -= edge.lower; demand[edge.v] += edge.lower;\<close> over all edges.\<close>

definition demands :: "nat \<Rightarrow> OriginalEdge list \<Rightarrow> int list" where
  "demands k edges =
     fold (\<lambda>e d. let d1 = d[e_u e := wrap32 (d ! e_u e - lower e)]
                in d1[e_v e := wrap32 (d1 ! e_v e + lower e)])
       edges (replicate k 0)"

text \<open>The edges of the adjustable flow, \<^verbatim>\<open>upper - lower\<close>, where that is positive.\<close>

definition slack_edges :: "OriginalEdge list \<Rightarrow> Isap \<Rightarrow> Isap" where
  "slack_edges edges g =
     fold (\<lambda>e g. if wrap32 (upper e - lower e) > 0
                then add_edge g (e_u e) (e_v e) (wrap32 (upper e - lower e)) else g)
       edges g"

text \<open>
  The loop over the nodes: an edge from the supersource for a positive demand, an edge to
  the supersink for a negative one; \<^verbatim>\<open>total_positive_demand\<close> is accumulated.
\<close>

definition demand_edges :: "nat \<Rightarrow> int list \<Rightarrow> Isap \<times> int \<Rightarrow> Isap \<times> int" where
  "demand_edges k demand =
     fold (\<lambda>i (g, tot).
             if demand ! i > 0 then (add_edge g k i (demand ! i), wrap32 (tot + demand ! i))
             else if demand ! i < 0 then (add_edge g i (k + 1) (wrap32 (- (demand ! i))), tot)
             else (g, tot))
       [0..<k]"

definition aux_graph :: "nat \<Rightarrow> nat \<Rightarrow> nat \<Rightarrow> OriginalEdge list \<Rightarrow> Isap \<times> int" where
  "aux_graph k s t edges =
     (let (g, tot) = demand_edges k (demands k edges) (slack_edges edges (Isap_new (k + 2)), 0)
      in (add_edge g t s INF_cap, tot))"

definition has_feasible_flow :: "nat \<Rightarrow> nat \<Rightarrow> nat \<Rightarrow> OriginalEdge list \<Rightarrow> (error + bool) option" where
  "has_feasible_flow k s t edges =
     (if list_ex (\<lambda>e. lower e > upper e) edges then Some (Inr False)
      else
        let (g, tot) = aux_graph k s t edges in
        case isap g k (k + 1) of
          None \<Rightarrow> None
        | Some (Inl err) \<Rightarrow> Some (Inl err)
        | Some (Inr (max_flow_aux, g')) \<Rightarrow> Some (Inr (max_flow_aux = tot)))"

text \<open>The same check with the flow computation that runs past an access outside \<^verbatim>\<open>gap\<close>.\<close>

definition has_feasible_flow_raw ::
  "(int \<Rightarrow> int) \<Rightarrow> nat \<Rightarrow> nat \<Rightarrow> nat \<Rightarrow> OriginalEdge list \<Rightarrow> (error + bool) option" where
  "has_feasible_flow_raw m k s t edges =
     (if list_ex (\<lambda>e. lower e > upper e) edges then Some (Inr False)
      else
        let (g, tot) = aux_graph k s t edges in
        case isap_raw m g k (k + 1) of
          None \<Rightarrow> None
        | Some (Inl err) \<Rightarrow> Some (Inl err)
        | Some (Inr (max_flow_aux, g')) \<Rightarrow> Some (Inr (max_flow_aux = tot)))"

section \<open>Flows and feasible assignments, as the claims speak of them\<close>

text \<open>
  The net flow leaving node \<open>x\<close>, for edges given by their end points and one flow value
  per edge.
\<close>

definition net_out :: "(nat \<times> nat) list \<Rightarrow> int list \<Rightarrow> nat \<Rightarrow> int" where
  "net_out ends f x =
     (\<Sum>(e, y) \<leftarrow> zip ends f. (if fst e = x then y else 0) - (if snd e = x then y else 0))"

text \<open>
  A flow from \<open>s\<close> to \<open>t\<close> on the \<open>k\<close>-node graph with the capacity edges \<open>es\<close>: one
  value per edge, within the capacity, conserved at every node other than \<open>s\<close> and \<open>t\<close>.
\<close>

definition is_flow :: "nat \<Rightarrow> (nat \<times> nat \<times> int) list \<Rightarrow> nat \<Rightarrow> nat \<Rightarrow> int list \<Rightarrow> bool" where
  "is_flow k es s t f =
     (list_all2 (\<lambda>(u, v, c) y. 0 \<le> y \<and> y \<le> c) es f \<and>
      list_all (\<lambda>x. x = s \<or> x = t \<or> net_out (map (\<lambda>(u, v, c). (u, v)) es) f x = 0) [0..<k])"

definition flow_value :: "(nat \<times> nat \<times> int) list \<Rightarrow> nat \<Rightarrow> int list \<Rightarrow> int" where
  "flow_value es s f = net_out (map (\<lambda>(u, v, c). (u, v)) es) f s"

text \<open>
  An assignment for bounded edges: one value per edge, between the edge's bounds,
  conserved at every node other than \<open>s\<close> and \<open>t\<close>.
\<close>

definition feasible_assignment :: "nat \<Rightarrow> nat \<Rightarrow> nat \<Rightarrow> OriginalEdge list \<Rightarrow> int list \<Rightarrow> bool" where
  "feasible_assignment k s t edges f =
     (list_all2 (\<lambda>e y. lower e \<le> y \<and> y \<le> upper e) edges f \<and>
      list_all (\<lambda>x. x = s \<or> x = t \<or> net_out (map (\<lambda>e. (e_u e, e_v e)) edges) f x = 0) [0..<k])"

section \<open>Well-formed graphs and the labeling phase\<close>

text \<open>
  The record the code reaches from the edge at position \<open>i\<close> of node \<open>u\<close> as
  \<^verbatim>\<open>adj[e.to][e.rev]\<close>.
\<close>

definition mate :: "Edge list list \<Rightarrow> nat \<Rightarrow> nat \<Rightarrow> Edge" where
  "mate a u i = a ! to (a ! u ! i) ! rev_idx (a ! u ! i)"

text \<open>
  Well-formedness: the three vectors have \<open>n\<close> entries, every edge leads to a node and
  names a position of that node's vector, and an edge between two different nodes is
  paired with the record that leads back and names it. (For \<^verbatim>\<open>add_edge(u, u, c)\<close> the
  first record names itself.) The constructor and \<^verbatim>\<open>add_edge\<close> with nodes below \<open>n\<close>
  keep it.
\<close>

definition wf_graph :: "Isap \<Rightarrow> bool" where
  "wf_graph g \<longleftrightarrow>
     length (adj g) = n_nodes g \<and> length (level g) = n_nodes g \<and> length (gap g) = n_nodes g \<and>
     (\<forall>u < n_nodes g. \<forall>i < length (adj g ! u).
        to (adj g ! u ! i) < n_nodes g \<and>
        rev_idx (adj g ! u ! i) < length (adj g ! to (adj g ! u ! i)) \<and>
        (to (adj g ! u ! i) \<noteq> u \<longrightarrow>
           to (mate (adj g) u i) = u \<and> rev_idx (mate (adj g) u i) = i))"

text \<open>The residual graph: an edge record with \<open>cap > flow\<close> leads from its node to \<open>to\<close>.\<close>

definition residual :: "Isap \<Rightarrow> (nat \<times> nat) set" where
  "residual g = {(u, v). u < n_nodes g \<and> (\<exists>e \<in> set (adj g ! u). to e = v \<and> cap e > flow e)}"

text \<open>
  The invariant of the labeling loop: a labelled node reaches the sink in the residual
  graph, labels are not negative, a positive label has a node one label below, and the
  queue holds labelled nodes.
\<close>

definition bfs_inv :: "Isap \<Rightarrow> nat \<Rightarrow> int list \<Rightarrow> int list \<Rightarrow> nat list \<Rightarrow> bool" where
  "bfs_inv g t lev gp q \<longleftrightarrow>
     length lev = n_nodes g \<and> length gp = n_nodes g \<and>
     (\<forall>v < n_nodes g. lev ! v \<noteq> - 1 \<longrightarrow>
        (v, t) \<in> (residual g)\<^sup>* \<and> 0 \<le> lev ! v \<and>
        (0 < lev ! v \<longrightarrow> (\<exists>w < n_nodes g. lev ! w = lev ! v - 1))) \<and>
     (\<forall>u \<in> set q. u < n_nodes g \<and> lev ! u \<noteq> - 1)"

lemma level_chain_bound:
  fixes lev :: "int list"
  assumes len: "length lev = k"
    and chain: "\<forall>v < k. lev ! v \<noteq> - 1 \<longrightarrow> 0 \<le> lev ! v \<and> (0 < lev ! v \<longrightarrow> (\<exists>w < k. lev ! w = lev ! v - 1))"
    and v: "v < k" "lev ! v \<noteq> - 1"
  shows "lev ! v < int k"
proof -
  have all: "\<exists>w < k. lev ! w = int m" if "int m \<le> lev ! v" for m
    using that
  proof (induction "nat (lev ! v) - m" arbitrary: m)
    case 0
    with chain v have "lev ! v = int m" by auto
    with v show ?case by auto
  next
    case (Suc d)
    then have "int (Suc m) \<le> lev ! v" by auto
    moreover from Suc have "d = nat (lev ! v) - Suc m" by auto
    ultimately obtain w where w: "w < k" "lev ! w = int (Suc m)" using Suc.hyps(1) by blast
    with chain obtain w' where "w' < k" "lev ! w' = lev ! w - 1" by fastforce
    with w show ?case by auto
  qed
  from chain v have nn: "0 \<le> lev ! v" by auto
  define L where "L = nat (lev ! v)"
  have "int ` {0..L} \<subseteq> (\<lambda>w. lev ! w) ` {..<k}"
  proof
    fix x assume "x \<in> int ` {0..L}"
    then obtain m where m: "x = int m" "m \<le> L" by auto
    with nn have "int m \<le> lev ! v" by (simp add: L_def)
    from all[OF this] obtain w where "w < k" "lev ! w = int m" by auto
    with m show "x \<in> (\<lambda>w. lev ! w) ` {..<k}" by (auto simp: image_iff intro!: bexI[of _ w])
  qed
  then have "card (int ` {0..L}) \<le> card ((\<lambda>w. lev ! w) ` {..<k})"
    by (intro card_mono) auto
  also have "\<dots> \<le> card {..<k}" by (rule card_image_le) simp
  finally have "Suc L \<le> k" by (simp add: card_image)
  with nn show ?thesis by (simp add: L_def)
qed

lemma wf_graph_edge:
  assumes "wf_graph g" "u < n_nodes g" "e \<in> set (adj g ! u)"
  shows "to e < n_nodes g" "rev_idx e < length (adj g ! to e)"
    "to e \<noteq> u \<Longrightarrow> to (adj g ! to e ! rev_idx e) = u"
proof -
  from assms(3) obtain i where i: "i < length (adj g ! u)" "e = adj g ! u ! i"
    by (auto simp: in_set_conv_nth)
  with assms(1,2) show "to e < n_nodes g" "rev_idx e < length (adj g ! to e)"
    "to e \<noteq> u \<Longrightarrow> to (adj g ! to e ! rev_idx e) = u"
    by (auto simp: wf_graph_def mate_def)
qed

lemma bfs_edges_inv:
  assumes wf: "wf_graph g" and u: "u < n_nodes g" "lev ! u \<noteq> - 1"
    and sub: "set es \<subseteq> set (adj g ! u)"
    and inv: "bfs_inv g t lev gp q"
  shows "\<exists>lev' gp' q'. bfs_edges (adj g) u es (lev, gp, q) = Inr (lev', gp', q') \<and> bfs_inv g t lev' gp' q'"
  using sub inv u(2)
proof (induction es arbitrary: lev gp q)
  case Nil
  then show ?case by simp
next
  case (Cons e es)
  let ?n = "n_nodes g"
  from Cons.prems have e: "e \<in> set (adj g ! u)" and sub': "set es \<subseteq> set (adj g ! u)" by auto
  from wf_graph_edge[OF wf u(1) e] have to: "to e < ?n" and rv: "rev_idx e < length (adj g ! to e)"
    and pair: "to e \<noteq> u \<Longrightarrow> to (adj g ! to e ! rev_idx e) = u" by auto
  from Cons.prems(2) have len: "length lev = ?n" "length gp = ?n" by (auto simp: bfs_inv_def)
  show ?case
  proof (cases "lev ! to e = - 1 \<and> cap (adj g ! to e ! rev_idx e) > flow (adj g ! to e ! rev_idx e)")
    case False
    with to len have "bfs_edges (adj g) u (e # es) (lev, gp, q) = bfs_edges (adj g) u es (lev, gp, q)"
      by (auto simp: Let_def)
    with Cons.IH[OF sub' Cons.prems(2) Cons.prems(3)] show ?thesis by simp
  next
    case True
    let ?v = "to e" and ?lv = "lev ! u + 1"
    let ?lev = "lev[?v := ?lv]"
    from True Cons.prems(3) have vu: "?v \<noteq> u" by auto
    from Cons.prems(2) u(1) Cons.prems(3) have lu: "0 \<le> lev ! u" "(u, t) \<in> (residual g)\<^sup>*"
      by (auto simp: bfs_inv_def)
    have chain: "\<forall>x < ?n. ?lev ! x \<noteq> - 1 \<longrightarrow> 0 \<le> ?lev ! x \<and> (0 < ?lev ! x \<longrightarrow> (\<exists>w < ?n. ?lev ! w = ?lev ! x - 1))"
    proof (intro allI impI)
      fix x assume x: "x < ?n" "?lev ! x \<noteq> - 1"
      show "0 \<le> ?lev ! x \<and> (0 < ?lev ! x \<longrightarrow> (\<exists>w < ?n. ?lev ! w = ?lev ! x - 1))"
      proof (cases "x = ?v")
        case True
        with to len lu vu u(1) show ?thesis by (auto intro!: exI[of _ u])
      next
        case False
        with x have x': "lev ! x \<noteq> - 1" by simp
        with Cons.prems(2) x have nn: "0 \<le> lev ! x"
          and ex: "0 < lev ! x \<Longrightarrow> \<exists>w < ?n. lev ! w = lev ! x - 1"
          by (auto simp: bfs_inv_def)
        show ?thesis
        proof (intro conjI impI)
          show "0 \<le> ?lev ! x" using nn False by simp
          assume "0 < ?lev ! x"
          with False have "0 < lev ! x" by simp
          from ex[OF this] obtain w where w: "w < ?n" "lev ! w = lev ! x - 1" by auto
          with \<open>0 < lev ! x\<close> True have "w \<noteq> ?v" by auto
          with w False show "\<exists>w < ?n. ?lev ! w = ?lev ! x - 1" by (auto intro!: exI[of _ w])
        qed
      qed
    qed
    have "?lev ! ?v < int ?n"
      by (rule level_chain_bound[OF _ chain to]) (use len to lu in auto)
    with to len have lvn: "?lv < int ?n" by simp
    have res: "(?v, u) \<in> residual g"
      unfolding residual_def using to rv pair[OF vu] True
      by (auto intro!: bexI[of _ "adj g ! to e ! rev_idx e"])
    have inv': "bfs_inv g t ?lev (gp[nat ?lv := gp ! nat ?lv + 1]) (q @ [?v])"
      unfolding bfs_inv_def
    proof (intro conjI allI impI ballI)
      fix x assume x: "x < ?n" "?lev ! x \<noteq> - 1"
      from chain x show "0 \<le> ?lev ! x" by blast
      show "(x, t) \<in> (residual g)\<^sup>*"
      proof (cases "x = ?v")
        case True
        with res lu show ?thesis by (auto intro: converse_rtrancl_into_rtrancl)
      next
        case False
        with x Cons.prems(2) show ?thesis by (auto simp: bfs_inv_def)
      qed
    next
      fix x assume x: "x < ?n" "?lev ! x \<noteq> - 1" "0 < ?lev ! x"
      with chain show "\<exists>w < ?n. ?lev ! w = ?lev ! x - 1" by blast
    next
      fix x assume "x \<in> set (q @ [?v])"
      with Cons.prems(2) to len lu True show "x < ?n" by (auto simp: bfs_inv_def)
    next
      fix x assume x: "x \<in> set (q @ [?v])"
      show "?lev ! x \<noteq> - 1"
      proof (cases "x = ?v")
        case True with to len lu show ?thesis by auto
      next
        case False with x Cons.prems(2) show ?thesis by (auto simp: bfs_inv_def)
      qed
    qed (use len in auto)
    have lu': "?lev ! u \<noteq> - 1" using vu Cons.prems(3) by simp
    from True to len lu lvn
    have "bfs_edges (adj g) u (e # es) (lev, gp, q)
        = bfs_edges (adj g) u es (?lev, gp[nat ?lv := gp ! nat ?lv + 1], q @ [?v])"
      using vu by (auto simp: Let_def)
    with Cons.IH[OF sub' inv' lu'] vu show ?thesis by simp
  qed
qed


lemma bfs_loop_inv:
  assumes wf: "wf_graph g"
  shows "bfs_inv g t lev gp q \<Longrightarrow>
    \<exists>lev' gp'. bfs_loop (adj g) (lev, gp, q) = Inr (lev', gp') \<and> bfs_inv g t lev' gp' []"
proof (induction "adj g" "(lev, gp, q)" arbitrary: lev gp q rule: bfs_loop.induct)
  case (1 lev gp)
  then show ?case by simp
next
  case (2 lev gp u q)
  from "2.prems" have u: "u < n_nodes g" "lev ! u \<noteq> - 1" and inv: "bfs_inv g t lev gp q"
    by (auto simp: bfs_inv_def)
  from bfs_edges_inv[OF wf u subset_refl inv]
  obtain lev' gp' q' where r: "bfs_edges (adj g) u (adj g ! u) (lev, gp, q) = Inr (lev', gp', q')"
    and inv': "bfs_inv g t lev' gp' q'" by blast
  from "2.hyps"[OF r inv'] r show ?case by simp
qed

lemma bfs_ok:
  assumes wf: "wf_graph g" and t: "t < n_nodes g"
  shows "\<exists>lev gp. bfs g t = Inr (g\<lparr>level := lev, gap := gp\<rparr>) \<and> bfs_inv g t lev gp []"
proof -
  let ?n = "n_nodes g"
  from wf have len: "length (level g) = ?n" "length (gap g) = ?n" by (auto simp: wf_graph_def)
  have "bfs_inv g t ((replicate ?n (- 1))[t := 0]) ((replicate ?n 0)[0 := 1]) [t]"
    using t by (auto simp: bfs_inv_def nth_list_update)
  from bfs_loop_inv[OF wf this] obtain lev gp where
    "bfs_loop (adj g) ((replicate ?n (- 1))[t := 0], (replicate ?n 0)[0 := 1], [t]) = Inr (lev, gp)"
    "bfs_inv g t lev gp []" by blast
  with t len show ?thesis by (auto simp: bfs_def)
qed

lemma wf_graph_Isap_new: "wf_graph (Isap_new k)"
  by (simp add: wf_graph_def Isap_new_def)

lemma wf_graph_add_edge:
  assumes wf: "wf_graph g" and u: "u < n_nodes g" and v: "v < n_nodes g"
  shows "wf_graph (add_edge g u v c)"
proof -
  let ?a = "adj g" and ?n = "n_nodes g"
  define e1 where "e1 = \<lparr>to = v, cap = c, flow = 0, rev_idx = length (?a ! v)\<rparr>"
  define a1 where "a1 = ?a[u := ?a ! u @ [e1]]"
  define e2 where "e2 = \<lparr>to = u, cap = 0, flow = 0, rev_idx = length (a1 ! u) - 1\<rparr>"
  define a2 where "a2 = a1[v := a1 ! v @ [e2]]"
  from wf have len: "length ?a = ?n" by (simp add: wf_graph_def)
  have g': "add_edge g u v c = g\<lparr>adj := a2\<rparr>"
    by (simp add: add_edge_def Let_def a2_def e2_def a1_def e1_def)
  have a1: "a1 ! x = (if x = u then ?a ! u @ [e1] else ?a ! x)" if "x < ?n" for x
    using that len by (simp add: a1_def)
  have a2: "a2 ! x = (if x = v then a1 ! v @ [e2] else a1 ! x)" if "x < ?n" for x
    using that len by (simp add: a2_def a1_def)
  have e2r: "rev_idx e2 = length (?a ! u)" using u by (simp add: e2_def a1)
  have old: "a2 ! x ! i = ?a ! x ! i" if "x < ?n" "i < length (?a ! x)" for x i
    using that v by (auto simp: a1 a2 nth_append)
  have lens: "length (?a ! x) \<le> length (a2 ! x)" if "x < ?n" for x
    using that v by (simp add: a1 a2)
  have rec: "to (a2 ! x ! i) < ?n \<and> rev_idx (a2 ! x ! i) < length (a2 ! to (a2 ! x ! i)) \<and>
        (to (a2 ! x ! i) \<noteq> x \<longrightarrow> to (mate a2 x i) = x \<and> rev_idx (mate a2 x i) = i)"
    if x: "x < ?n" and i: "i < length (a2 ! x)" for x i
  proof (cases "i < length (?a ! x)")
    case True
    with wf x have o: "to (?a ! x ! i) < ?n" "rev_idx (?a ! x ! i) < length (?a ! to (?a ! x ! i))"
      "to (?a ! x ! i) \<noteq> x \<longrightarrow> to (mate ?a x i) = x \<and> rev_idx (mate ?a x i) = i"
      by (auto simp: wf_graph_def)
    from o(1,2) have "mate a2 x i = mate ?a x i"
      unfolding mate_def old[OF x True] by (rule old)
    with o old[OF x True] lens[OF o(1)] show ?thesis by auto
  next
    case False
    show ?thesis
    proof (cases "u = v")
      case True
      with False x i u e2r show ?thesis
        by (auto simp: a1 a2 nth_append mate_def less_Suc_eq e1_def e2_def split: if_splits)
    next
      case False
      with \<open>\<not> i < length (?a ! x)\<close> x i u v e2r show ?thesis
        by (auto simp: a1 a2 nth_append mate_def less_Suc_eq e1_def e2_def split: if_splits)
    qed
  qed
  from wf rec len have "length a2 = ?n" by (simp add: a2_def a1_def)
  with wf rec show ?thesis
    unfolding g' by (simp add: wf_graph_def)
qed

lemma wf_graph_build:
  "list_all (\<lambda>(u, v, c). u < k \<and> v < k) es \<Longrightarrow> wf_graph (build k es)"
proof -
  have "wf_graph g \<Longrightarrow> n_nodes g = k \<Longrightarrow> list_all (\<lambda>(u, v, c). u < k \<and> v < k) es \<Longrightarrow>
      wf_graph (fold (\<lambda>(u, v, c) g. add_edge g u v c) es g)" for g
  proof (induction es arbitrary: g)
    case Nil
    then show ?case by simp
  next
    case (Cons e es)
    obtain u v c where e: "e = (u, v, c)" by (cases e) auto
    from Cons.prems e have "wf_graph (add_edge g u v c)"
      by (intro wf_graph_add_edge) auto
    moreover from Cons.prems have "n_nodes (add_edge g u v c) = k"
      by (simp add: add_edge_def Let_def)
    ultimately show ?case using Cons.IH[of "add_edge g u v c"] Cons.prems e by simp
  qed
  from this[OF wf_graph_Isap_new] show "list_all (\<lambda>(u, v, c). u < k \<and> v < k) es \<Longrightarrow> wf_graph (build k es)"
    by (simp add: build_def Isap_new_def)
qed

section \<open>Flow invariants of the main loop\<close>

text \<open>
  The flow part of the invariant: no record carries more than its capacity, the two
  records of an edge between different nodes carry opposite flows, and a record that
  leads back to its own node carries none.
\<close>

definition flow_ok :: "Isap \<Rightarrow> bool" where
  "flow_ok g \<longleftrightarrow>
     (\<forall>u < n_nodes g. \<forall>i < length (adj g ! u).
        flow (adj g ! u ! i) \<le> cap (adj g ! u ! i) \<and>
        (to (adj g ! u ! i) \<noteq> u \<longrightarrow> flow (mate (adj g) u i) = - flow (adj g ! u ! i)) \<and>
        (to (adj g ! u ! i) = u \<longrightarrow> flow (adj g ! u ! i) = 0))"

text \<open>
  Two adjacency structures of the same shape: the same vector lengths and, position by
  position, the same \<^verbatim>\<open>to\<close>, \<^verbatim>\<open>cap\<close> and \<^verbatim>\<open>rev\<close>; only flows may differ.
\<close>

definition frame :: "Edge list list \<Rightarrow> Edge list list \<Rightarrow> bool" where
  "frame a a' \<longleftrightarrow>
     length a' = length a \<and>
     (\<forall>u < length a. length (a' ! u) = length (a ! u) \<and>
        (\<forall>i < length (a ! u). to (a' ! u ! i) = to (a ! u ! i) \<and> cap (a' ! u ! i) = cap (a ! u ! i) \<and>
           rev_idx (a' ! u ! i) = rev_idx (a ! u ! i)))"

lemma frame_refl: "frame a a"
  by (simp add: frame_def)

lemma frame_trans: "frame a b \<Longrightarrow> frame b c \<Longrightarrow> frame a c"
  by (simp add: frame_def)

lemma wf_graph_frame:
  assumes "wf_graph g" "frame (adj g) a'"
  shows "wf_graph (g\<lparr>adj := a'\<rparr>)"
  using assms unfolding wf_graph_def frame_def mate_def
  by simp

text \<open>The effect of one push on the records.\<close>

lemma push_nth:
  assumes wf: "wf_graph g" and p: "p < n_nodes g" and c: "cu ! p < length (adj g ! p)"
    and np: "to (adj g ! p ! (cu ! p)) \<noteq> p"
  shows "length (push cu f p (adj g)) = length (adj g)"
    and "length (push cu f p (adj g) ! x) = length (adj g ! x)"
    and "push cu f p (adj g) ! x ! i =
      (if x = p \<and> i = cu ! p then (adj g ! p ! (cu ! p))\<lparr>flow := flow (adj g ! p ! (cu ! p)) + f\<rparr>
       else if x = to (adj g ! p ! (cu ! p)) \<and> i = rev_idx (adj g ! p ! (cu ! p))
         then (mate (adj g) p (cu ! p))\<lparr>flow := flow (mate (adj g) p (cu ! p)) - f\<rparr>
       else adj g ! x ! i)"
proof -
  let ?a = "adj g" and ?e = "adj g ! p ! (cu ! p)"
  from wf have len: "length ?a = n_nodes g" by (simp add: wf_graph_def)
  from wf p c have v: "to ?e < n_nodes g" and r: "rev_idx ?e < length (?a ! to ?e)"
    by (auto simp: wf_graph_def)
  define a1 where "a1 = ?a[p := (?a ! p)[cu ! p := ?e\<lparr>flow := flow ?e + f\<rparr>]]"
  have a1p: "a1 ! p ! (cu ! p) = ?e\<lparr>flow := flow ?e + f\<rparr>"
    using p c len by (simp add: a1_def)
  have a1v: "a1 ! to ?e = ?a ! to ?e" using np by (simp add: a1_def)
  have pu: "push cu f p ?a = a1[to ?e := (?a ! to ?e)[rev_idx ?e := (mate ?a p (cu ! p))\<lparr>flow := flow (mate ?a p (cu ! p)) - f\<rparr>]]"
    unfolding push_def Let_def a1_def[symmetric] a1p by (simp add: a1v mate_def)
  show "length (push cu f p ?a) = length ?a" by (simp add: pu a1_def)
  show "length (push cu f p ?a ! x) = length (?a ! x)"
    unfolding pu a1_def by (cases "x = to ?e"; cases "x = p") (use len p v in \<open>auto simp: nth_list_update\<close>)
  show "push cu f p ?a ! x ! i =
      (if x = p \<and> i = cu ! p then ?e\<lparr>flow := flow ?e + f\<rparr>
       else if x = to ?e \<and> i = rev_idx ?e
         then (mate ?a p (cu ! p))\<lparr>flow := flow (mate ?a p (cu ! p)) - f\<rparr>
       else ?a ! x ! i)"
    unfolding pu a1_def using len p v c r np by (auto simp: nth_list_update)
qed

lemma push_frame:
  assumes wf: "wf_graph g" and p: "p < n_nodes g" and c: "cu ! p < length (adj g ! p)"
    and np: "to (adj g ! p ! (cu ! p)) \<noteq> p"
  shows "frame (adj g) (push cu f p (adj g))"
  unfolding frame_def using push_nth[OF assms] wf p c
  by (auto simp: wf_graph_def mate_def)

lemma push_flow_ok:
  assumes wf: "wf_graph g" and ok: "flow_ok g" and p: "p < n_nodes g"
    and c: "cu ! p < length (adj g ! p)"
    and np: "to (adj g ! p ! (cu ! p)) \<noteq> p"
    and f: "0 \<le> f" "f \<le> cap (adj g ! p ! (cu ! p)) - flow (adj g ! p ! (cu ! p))"
  shows "flow_ok (g\<lparr>adj := push cu f p (adj g)\<rparr>)"
proof -
  let ?a = "adj g" and ?a' = "push cu f p (adj g)" and ?n = "n_nodes g"
  let ?e = "?a ! p ! (cu ! p)"
  let ?v = "to ?e" and ?r = "rev_idx ?e"
  note nth = push_nth(3)[OF wf p c np, where f = f] and lens = push_nth(2)[OF wf p c np, where f = f]
  from wf p c have v: "?v < ?n" and r: "?r < length (?a ! ?v)" by (auto simp: wf_graph_def)
  from wf p c np have ret: "to (mate ?a p (cu ! p)) = p" "rev_idx (mate ?a p (cu ! p)) = cu ! p"
    by (auto simp: wf_graph_def)
  have mvr: "?a ! ?v ! ?r = mate ?a p (cu ! p)" by (simp add: mate_def)
  from ok p c np have sym: "flow (mate ?a p (cu ! p)) = - flow ?e"
    by (auto simp: flow_ok_def)
  from ok v r have capm: "flow (mate ?a p (cu ! p)) \<le> cap (mate ?a p (cu ! p))"
    unfolding mvr[symmetric] by (auto simp: flow_ok_def)
  have "flow (?a' ! x ! i) \<le> cap (?a' ! x ! i) \<and>
        (to (?a' ! x ! i) \<noteq> x \<longrightarrow> flow (mate ?a' x i) = - flow (?a' ! x ! i)) \<and>
        (to (?a' ! x ! i) = x \<longrightarrow> flow (?a' ! x ! i) = 0)"
    if x: "x < ?n" and i: "i < length (?a ! x)" for x i
  proof -
    from wf x i have tx: "to (?a ! x ! i) < ?n" and rx: "rev_idx (?a ! x ! i) < length (?a ! to (?a ! x ! i))"
      and px: "to (?a ! x ! i) \<noteq> x \<Longrightarrow> to (mate ?a x i) = x \<and> rev_idx (mate ?a x i) = i"
      by (auto simp: wf_graph_def)
    from ok x i have fx: "flow (?a ! x ! i) \<le> cap (?a ! x ! i)"
      and sx: "to (?a ! x ! i) \<noteq> x \<Longrightarrow> flow (mate ?a x i) = - flow (?a ! x ! i)"
      and lx: "to (?a ! x ! i) = x \<Longrightarrow> flow (?a ! x ! i) = 0"
      by (auto simp: flow_ok_def)
    consider (fw) "x = p" "i = cu ! p" | (bw) "\<not> (x = p \<and> i = cu ! p)" "x = ?v" "i = ?r"
      | (other) "\<not> (x = p \<and> i = cu ! p)" "\<not> (x = ?v \<and> i = ?r)" by blast
    then show ?thesis
    proof cases
      case fw
      then have rec: "?a' ! x ! i = ?e\<lparr>flow := flow ?e + f\<rparr>" by (simp add: nth)
      have "mate ?a' x i = ?a' ! ?v ! ?r" by (simp add: mate_def[of ?a'] rec)
      also have "\<dots> = (mate ?a p (cu ! p))\<lparr>flow := flow (mate ?a p (cu ! p)) - f\<rparr>"
        using np by (simp add: nth)
      finally show ?thesis using rec f sym np fw by simp
    next
      case bw
      with np have rec: "?a' ! x ! i = (mate ?a p (cu ! p))\<lparr>flow := flow (mate ?a p (cu ! p)) - f\<rparr>"
        by (simp add: nth)
      have "mate ?a' x i = ?a' ! p ! (cu ! p)" using ret by (simp add: mate_def[of ?a'] rec)
      also have "\<dots> = ?e\<lparr>flow := flow ?e + f\<rparr>" by (simp add: nth)
      finally show ?thesis using rec f sym capm ret bw np by simp
    next
      case other
      then have rec: "?a' ! x ! i = ?a ! x ! i" by (auto simp: nth)
      show ?thesis
      proof (cases "to (?a ! x ! i) = x")
        case True
        with rec fx lx show ?thesis by simp
      next
        case False
        let ?y = "to (?a ! x ! i)" and ?j = "rev_idx (?a ! x ! i)"
        from px[OF False] have bk: "to (?a ! ?y ! ?j) = x" "rev_idx (?a ! ?y ! ?j) = i"
          by (auto simp: mate_def)
        have n1: "\<not> (?y = p \<and> ?j = cu ! p)"
        proof
          assume "?y = p \<and> ?j = cu ! p"
          with bk have "?v = x" "?r = i" by auto
          with other show False by simp
        qed
        have n2: "\<not> (?y = ?v \<and> ?j = ?r)"
        proof
          assume "?y = ?v \<and> ?j = ?r"
          with bk have "to (?a ! ?v ! ?r) = x" "rev_idx (?a ! ?v ! ?r) = i" by auto
          with ret mvr have "p = x" "cu ! p = i" by auto
          with other show False by simp
        qed
        have "mate ?a' x i = ?a' ! ?y ! ?j" by (simp add: mate_def[of ?a'] rec)
        also have "\<dots> = ?a ! ?y ! ?j" using n1 n2 by (auto simp: nth)
        finally have "mate ?a' x i = mate ?a x i" by (simp add: mate_def)
        with rec fx sx[OF False] False show ?thesis by simp
      qed
    qed
  qed
  then show ?thesis
    unfolding flow_ok_def by (simp add: lens)
qed


lemma augment_good:
  assumes "wf_graph g" "flow_ok g" "distinct ps" "0 \<le> f"
    and "\<forall>p \<in> set ps. p < n_nodes g \<and> cu ! p < length (adj g ! p) \<and>
           level g ! p = level g ! to (adj g ! p ! (cu ! p)) + 1 \<and>
           f \<le> cap (adj g ! p ! (cu ! p)) - flow (adj g ! p ! (cu ! p))"
  shows "flow_ok (g\<lparr>adj := augment (adj g) cu ps f\<rparr>) \<and> frame (adj g) (augment (adj g) cu ps f)"
  using assms
proof (induction ps arbitrary: g)
  case Nil
  then show ?case by (simp add: augment_def frame_refl)
next
  case (Cons p ps)
  let ?a = "adj g" and ?e = "adj g ! p ! (cu ! p)"
  let ?g1 = "g\<lparr>adj := push cu f p ?a\<rparr>"
  from Cons.prems have p: "p < n_nodes g" "cu ! p < length (?a ! p)"
    "level g ! p = level g ! to ?e + 1" "f \<le> cap ?e - flow ?e" by auto
  from p(3) have np: "to ?e \<noteq> p" by auto
  have fr: "frame ?a (push cu f p ?a)" by (rule push_frame[OF Cons.prems(1) p(1,2) np])
  then have wf1: "wf_graph ?g1" by (rule wf_graph_frame[OF Cons.prems(1)])
  have ok1: "flow_ok ?g1" by (rule push_flow_ok[OF Cons.prems(1,2) p(1,2) np Cons.prems(4) p(4)])
  note nth = push_nth(3)[OF Cons.prems(1) p(1,2) np, where f = f]
    and lens = push_nth(2)[OF Cons.prems(1) p(1,2) np, where f = f]
  from Cons.prems(1) p(1,2) np have ret: "to (mate ?a p (cu ! p)) = p"
    by (auto simp: wf_graph_def)
  have adm1: "\<forall>q \<in> set ps. q < n_nodes ?g1 \<and> cu ! q < length (adj ?g1 ! q) \<and>
           level ?g1 ! q = level ?g1 ! to (adj ?g1 ! q ! (cu ! q)) + 1 \<and>
           f \<le> cap (adj ?g1 ! q ! (cu ! q)) - flow (adj ?g1 ! q ! (cu ! q))"
  proof
    fix q assume q: "q \<in> set ps"
    with Cons.prems(3) have qp: "q \<noteq> p" by auto
    from q Cons.prems(5) have qa: "q < n_nodes g" "cu ! q < length (?a ! q)"
      "level g ! q = level g ! to (?a ! q ! (cu ! q)) + 1"
      "f \<le> cap (?a ! q ! (cu ! q)) - flow (?a ! q ! (cu ! q))" by auto
    have "\<not> (q = to ?e \<and> cu ! q = rev_idx ?e)"
    proof
      assume h: "q = to ?e \<and> cu ! q = rev_idx ?e"
      then have "?a ! q ! (cu ! q) = mate ?a p (cu ! p)" unfolding mate_def by metis
      with ret qa(3) have "level g ! q = level g ! p + 1" by simp
      with p(3) h show False by simp
    qed
    with qp have "push cu f p ?a ! q ! (cu ! q) = ?a ! q ! (cu ! q)" by (auto simp: nth)
    with qa show "q < n_nodes ?g1 \<and> cu ! q < length (adj ?g1 ! q) \<and>
           level ?g1 ! q = level ?g1 ! to (adj ?g1 ! q ! (cu ! q)) + 1 \<and>
           f \<le> cap (adj ?g1 ! q ! (cu ! q)) - flow (adj ?g1 ! q ! (cu ! q))"
      by (simp add: lens)
  qed
  from Cons.prems(3) have d: "distinct ps" by simp
  from Cons.IH[OF wf1 ok1 d Cons.prems(4) adm1]
  have "flow_ok (g\<lparr>adj := augment (push cu f p ?a) cu ps f\<rparr>)"
    "frame (push cu f p ?a) (augment (push cu f p ?a) cu ps f)" by simp_all
  moreover have "augment ?a cu (p # ps) f = augment (push cu f p ?a) cu ps f"
    by (simp add: augment_def)
  ultimately show ?case using fr by (auto intro: frame_trans)
qed

lemma fold_min_le_init:
  fixes r :: "nat \<Rightarrow> int"
  shows "fold (\<lambda>p f. min f (r p)) ps f0 \<le> f0"
proof (induction ps arbitrary: f0)
  case Nil
  then show ?case by simp
next
  case (Cons q ps)
  have "fold (\<lambda>p f. min f (r p)) ps (min f0 (r q)) \<le> min f0 (r q)" by (rule Cons.IH)
  then show ?case by simp
qed

lemma fold_min_le_elem:
  fixes r :: "nat \<Rightarrow> int"
  shows "p \<in> set ps \<Longrightarrow> fold (\<lambda>p f. min f (r p)) ps f0 \<le> r p"
proof (induction ps arbitrary: f0)
  case Nil
  then show ?case by simp
next
  case (Cons q ps)
  show ?case
  proof (cases "p = q")
    case True
    have "fold (\<lambda>p f. min f (r p)) ps (min f0 (r q)) \<le> min f0 (r q)" by (rule fold_min_le_init)
    with True show ?thesis by simp
  next
    case False
    with Cons show ?thesis by simp
  qed
qed

lemma fold_min_nonneg:
  fixes r :: "nat \<Rightarrow> int"
  shows "0 \<le> f0 \<Longrightarrow> \<forall>p \<in> set ps. 0 \<le> r p \<Longrightarrow> 0 \<le> fold (\<lambda>p f. min f (r p)) ps f0"
  by (induction ps arbitrary: f0) auto

lemma scan_found:
  assumes "scan lev lu es c = (c', True)"
  shows "c \<le> c' \<and> c' - c < length es \<and> flow (es ! (c' - c)) < cap (es ! (c' - c)) \<and>
         lu = lev ! to (es ! (c' - c)) + 1"
  using assms
proof (induction es arbitrary: c)
  case Nil
  then show ?case by simp
next
  case (Cons e es)
  show ?case
  proof (cases "cap e > flow e \<and> lu = lev ! to e + 1")
    case True
    with Cons.prems show ?thesis by simp
  next
    case False
    with Cons.prems have "scan lev lu es (Suc c) = (c', True)" by auto
    from Cons.IH[OF this] show ?thesis by (auto simp: Suc_diff_le)
  qed
qed


text \<open>
  The invariant of the search state: the graph is well-formed with valid flows and the
  shape it started with, the labels along the path fall by one per step down to the
  current node, and every node of the path points (by its current arc) at a residual,
  admissible edge.
\<close>

definition search_inv :: "Edge list list \<Rightarrow> nat \<Rightarrow> search \<Rightarrow> bool" where
  "search_inv a0 s st \<longleftrightarrow>
     wf_graph (graph st) \<and> flow_ok (graph st) \<and> frame a0 (adj (graph st)) \<and>
     s < n_nodes (graph st) \<and> node st < n_nodes (graph st) \<and>
     length (cur st) = n_nodes (graph st) \<and>
     (\<forall>i < length (path st).
        level (graph st) ! (path st ! i) = level (graph st) ! node st + int (length (path st) - i)) \<and>
     (\<forall>p \<in> set (path st).
        p < n_nodes (graph st) \<and> cur st ! p < length (adj (graph st) ! p) \<and>
        flow (adj (graph st) ! p ! (cur st ! p)) < cap (adj (graph st) ! p ! (cur st ! p)) \<and>
        level (graph st) ! p = level (graph st) ! to (adj (graph st) ! p ! (cur st ! p)) + 1)"

text \<open>What the invariant gives for a returned result.\<close>

definition result_ok :: "Edge list list \<Rightarrow> error + int \<times> Isap \<Rightarrow> bool" where
  "result_ok a0 res \<longleftrightarrow>
     (case res of
        Inl err \<Rightarrow> True
      | Inr (fl, g') \<Rightarrow> wf_graph g' \<and> flow_ok g' \<and> frame a0 (adj g'))"

lemma path_levels_distinct:
  fixes lev :: "int list"
  assumes "\<forall>i < length ps. lev ! (ps ! i) = lev ! u + int (length ps - i)"
  shows "distinct ps" and "u \<notin> set ps"
proof -
  show "distinct ps"
    unfolding distinct_conv_nth
  proof (intro allI impI)
    fix i j assume ij: "i < length ps" "j < length ps" "i \<noteq> j"
    with assms have "lev ! (ps ! i) \<noteq> lev ! (ps ! j)" by auto
    then show "ps ! i \<noteq> ps ! j" by auto
  qed
  show "u \<notin> set ps"
  proof
    assume "u \<in> set ps"
    then obtain i where "i < length ps" "ps ! i = u" by (auto simp: in_set_conv_nth)
    with assms show False by force
  qed
qed

lemma augment_at_sink_inv:
  assumes inv: "search_inv a0 s st"
  shows "search_inv a0 s (augment_at_sink s t st)"
proof (cases "node st = t")
  case False
  with inv show ?thesis by (simp add: augment_at_sink_def)
next
  case True
  let ?g = "graph st" and ?ps = "path st" and ?cu = "cur st"
  let ?f = "bottleneck (adj ?g) ?cu ?ps"
  let ?r = "\<lambda>p. cap (adj ?g ! p ! (?cu ! p)) - flow (adj ?g ! p ! (?cu ! p))"
  from inv have wf: "wf_graph ?g" and ok: "flow_ok ?g" and fr: "frame a0 (adj ?g)"
    and s: "s < n_nodes ?g" and len: "length ?cu = n_nodes ?g"
    and lv: "\<forall>i < length ?ps. level ?g ! (?ps ! i) = level ?g ! node st + int (length ?ps - i)"
    and adm: "\<forall>p \<in> set ?ps. p < n_nodes ?g \<and> ?cu ! p < length (adj ?g ! p) \<and>
        flow (adj ?g ! p ! (?cu ! p)) < cap (adj ?g ! p ! (?cu ! p)) \<and>
        level ?g ! p = level ?g ! to (adj ?g ! p ! (?cu ! p)) + 1"
    by (auto simp: search_inv_def)
  have f_def: "?f = fold (\<lambda>p f. min f (?r p)) ?ps INF_cap" by (simp add: bottleneck_def)
  have f0: "0 \<le> ?f" unfolding f_def
    by (rule fold_min_nonneg) (use adm in \<open>auto simp: INF_cap_def\<close>)
  have fle: "?f \<le> ?r p" if "p \<in> set ?ps" for p
    unfolding f_def using that by (rule fold_min_le_elem)
  have "flow_ok (?g\<lparr>adj := augment (adj ?g) ?cu ?ps ?f\<rparr>) \<and> frame (adj ?g) (augment (adj ?g) ?cu ?ps ?f)"
    by (rule augment_good[OF wf ok path_levels_distinct(1)[OF lv] f0]) (use adm fle in auto)
  then have ok': "flow_ok (?g\<lparr>adj := augment (adj ?g) ?cu ?ps ?f\<rparr>)"
    and fr': "frame (adj ?g) (augment (adj ?g) ?cu ?ps ?f)" by auto
  from wf_graph_frame[OF wf fr'] ok' frame_trans[OF fr fr'] s len True show ?thesis
    by (simp add: augment_at_sink_def search_inv_def Let_def)
qed

lemma advance_inv:
  assumes inv: "search_inv a0 s st"
    and sc: "scan (level (graph st)) (level (graph st) ! node st)
               (drop (cur st ! node st) (adj (graph st) ! node st)) (cur st ! node st) = (c, True)"
  shows "search_inv a0 s (st\<lparr>cur := (cur st)[node st := c], path := path st @ [node st],
                             node := to (adj (graph st) ! node st ! c)\<rparr>)"
proof -
  let ?g = "graph st" and ?ps = "path st" and ?cu = "cur st" and ?u = "node st"
  let ?e = "adj ?g ! ?u ! c"
  from inv have wf: "wf_graph ?g" and u: "?u < n_nodes ?g" and len: "length ?cu = n_nodes ?g"
    and lv: "\<forall>i < length ?ps. level ?g ! (?ps ! i) = level ?g ! ?u + int (length ?ps - i)"
    and adm: "\<forall>p \<in> set ?ps. p < n_nodes ?g \<and> ?cu ! p < length (adj ?g ! p) \<and>
        flow (adj ?g ! p ! (?cu ! p)) < cap (adj ?g ! p ! (?cu ! p)) \<and>
        level ?g ! p = level ?g ! to (adj ?g ! p ! (?cu ! p)) + 1"
    by (auto simp: search_inv_def)
  from scan_found[OF sc] have c: "c < length (adj ?g ! ?u)" "flow ?e < cap ?e"
    "level ?g ! ?u = level ?g ! to ?e + 1" by auto
  from wf u c(1) have to: "to ?e < n_nodes ?g" by (auto simp: wf_graph_def)
  from path_levels_distinct(2)[OF lv] have notin: "?u \<notin> set ?ps" .
  have lv': "level ?g ! ((?ps @ [?u]) ! i) = level ?g ! to ?e + int (length (?ps @ [?u]) - i)"
    if "i < length (?ps @ [?u])" for i
  proof (cases "i < length ?ps")
    case True
    with lv c(3) show ?thesis by (simp add: nth_append Suc_diff_le)
  next
    case False
    with that have "i = length ?ps" by simp
    with c(3) show ?thesis by simp
  qed
  have adm': "p < n_nodes ?g \<and> ?cu[?u := c] ! p < length (adj ?g ! p) \<and>
        flow (adj ?g ! p ! (?cu[?u := c] ! p)) < cap (adj ?g ! p ! (?cu[?u := c] ! p)) \<and>
        level ?g ! p = level ?g ! to (adj ?g ! p ! (?cu[?u := c] ! p)) + 1"
    if "p \<in> set (?ps @ [?u])" for p
  proof (cases "p = ?u")
    case True
    with u len c show ?thesis by simp
  next
    case False
    with that adm show ?thesis by simp
  qed
  from inv to lv' adm' len show ?thesis
    unfolding search_inv_def by simp
qed

lemma gap_set_length: "gap_set gp m i x = (gp', m') \<Longrightarrow> length gp' = length gp"
  by (auto simp: gap_set_def split: if_splits)

lemma retreat_inv:
  assumes inv: "search_inv a0 s st" and gp: "length gp = n_nodes (graph st)"
  shows "search_inv a0 s
     (st\<lparr>graph := (graph st)\<lparr>level := (level (graph st))[node st := l], gap := gp\<rparr>,
         cur := ((cur st)[node st := c])[node st := 0],
         path := butlast (path st),
         node := (if path st = [] then node st else last (path st))\<rparr>)"
proof -
  let ?g = "graph st" and ?ps = "path st" and ?cu = "cur st" and ?u = "node st"
  let ?g' = "?g\<lparr>level := (level ?g)[?u := l], gap := gp\<rparr>"
  from inv have wf: "wf_graph ?g" and ok: "flow_ok ?g" and fr: "frame a0 (adj ?g)"
    and s: "s < n_nodes ?g" and u: "?u < n_nodes ?g" and len: "length ?cu = n_nodes ?g"
    and lv: "\<forall>i < length ?ps. level ?g ! (?ps ! i) = level ?g ! ?u + int (length ?ps - i)"
    and adm: "\<forall>p \<in> set ?ps. p < n_nodes ?g \<and> ?cu ! p < length (adj ?g ! p) \<and>
        flow (adj ?g ! p ! (?cu ! p)) < cap (adj ?g ! p ! (?cu ! p)) \<and>
        level ?g ! p = level ?g ! to (adj ?g ! p ! (?cu ! p)) + 1"
    by (auto simp: search_inv_def)
  have wf': "wf_graph ?g'" using wf gp by (simp add: wf_graph_def)
  have ok': "flow_ok ?g'" using ok by (simp add: flow_ok_def)
  have node': "(if ?ps = [] then ?u else last ?ps) < n_nodes ?g"
    using u adm by (auto simp: last_in_set)
  have lev_other: "(level ?g)[?u := l] ! x = level ?g ! x" if "x \<noteq> ?u" for x
    using that by simp
  have lv': "(level ?g)[?u := l] ! (butlast ?ps ! i)
      = (level ?g)[?u := l] ! (if ?ps = [] then ?u else last ?ps) + int (length (butlast ?ps) - i)"
    if i: "i < length (butlast ?ps)" for i
  proof -
    from i have ne: "?ps \<noteq> []" and i': "i < length ?ps" and i'': "Suc i < length ?ps" by auto
    from i' have "?ps ! i \<in> set ?ps" by simp
    moreover from ne have "last ?ps \<in> set ?ps" by simp
    ultimately have "?ps ! i \<noteq> ?u" "last ?ps \<noteq> ?u"
      using path_levels_distinct(2)[OF lv] by auto
    moreover from lv i' have "level ?g ! (?ps ! i) = level ?g ! ?u + int (length ?ps - i)" by simp
    moreover have "level ?g ! (last ?ps) = level ?g ! ?u + 1"
    proof -
      from ne obtain k where k: "length ?ps = Suc k" by (cases ?ps) auto
      with lv have "level ?g ! (?ps ! k) = level ?g ! ?u + int (length ?ps - k)" by simp
      with k ne show ?thesis by (simp add: last_conv_nth)
    qed
    ultimately show ?thesis using ne i i'' by (simp add: nth_butlast lev_other)
  qed
  have adm': "p < n_nodes ?g \<and> (?cu[?u := c])[?u := 0] ! p < length (adj ?g ! p) \<and>
      flow (adj ?g ! p ! ((?cu[?u := c])[?u := 0] ! p)) < cap (adj ?g ! p ! ((?cu[?u := c])[?u := 0] ! p)) \<and>
      (level ?g)[?u := l] ! p
        = (level ?g)[?u := l] ! to (adj ?g ! p ! ((?cu[?u := c])[?u := 0] ! p)) + 1"
    if p: "p \<in> set (butlast ?ps)" for p
  proof -
    from p obtain i where i: "i < length (butlast ?ps)" "butlast ?ps ! i = p"
      by (auto simp: in_set_conv_nth)
    then have i': "Suc i < length ?ps" and pi: "?ps ! i = p" by (auto simp: nth_butlast)
    then have pin: "p \<in> set ?ps" by auto
    with path_levels_distinct(2)[OF lv] have pu: "p \<noteq> ?u" by auto
    from lv i' pi have lp: "level ?g ! p = level ?g ! ?u + int (length ?ps - i)" by auto
    from adm pin have a: "p < n_nodes ?g" "?cu ! p < length (adj ?g ! p)"
      "flow (adj ?g ! p ! (?cu ! p)) < cap (adj ?g ! p ! (?cu ! p))"
      "level ?g ! p = level ?g ! to (adj ?g ! p ! (?cu ! p)) + 1" by auto
    from lp a(4) i' have "to (adj ?g ! p ! (?cu ! p)) \<noteq> ?u" by auto
    with a pu show ?thesis by (simp add: lev_other)
  qed
  from wf' ok' fr s node' len lv' adm' show ?thesis
    unfolding search_inv_def by simp
qed

lemma relabel_inv:
  assumes inv: "search_inv a0 s st"
  shows "case relabel (st\<lparr>cur := (cur st)[node st := c]\<rparr>) of
           Inl res \<Rightarrow> result_ok a0 res
         | Inr st' \<Rightarrow> search_inv a0 s st'"
proof -
  let ?g = "graph st" and ?ps = "path st" and ?cu = "cur st" and ?u = "node st"
  let ?st = "st\<lparr>cur := ?cu[?u := c]\<rparr>"
  let ?lu = "level ?g ! ?u" and ?ml = "min_level ?g ?u"
  let ?gp = "(gap ?g)[nat ?lu := gap ?g ! nat ?lu - 1]"
  let ?g' = "?g\<lparr>level := (level ?g)[?u := ?ml + 1], gap := ?gp[nat (?ml + 1) := ?gp ! nat (?ml + 1) + 1]\<rparr>"
  let ?st' = "?st\<lparr>graph := ?g', cur := (?cu[?u := c])[?u := 0], path := butlast ?ps,
                   node := (if ?ps = [] then ?u else last ?ps)\<rparr>"
  from inv have wf: "wf_graph ?g" and ok: "flow_ok ?g" and fr: "frame a0 (adj ?g)"
    and s: "s < n_nodes ?g" and u: "?u < n_nodes ?g" and len: "length ?cu = n_nodes ?g"
    and lv: "\<forall>i < length ?ps. level ?g ! (?ps ! i) = level ?g ! ?u + int (length ?ps - i)"
    and adm: "\<forall>p \<in> set ?ps. p < n_nodes ?g \<and> ?cu ! p < length (adj ?g ! p) \<and>
        flow (adj ?g ! p ! (?cu ! p)) < cap (adj ?g ! p ! (?cu ! p)) \<and>
        level ?g ! p = level ?g ! to (adj ?g ! p ! (?cu ! p)) + 1"
    by (auto simp: search_inv_def)
  have "result_ok a0 (Inr (total st, ?g\<lparr>gap := ?gp\<rparr>))"
    using wf ok fr by (simp add: result_ok_def wf_graph_def flow_ok_def)
  have nxt: "search_inv a0 s ?st'"
    using retreat_inv[OF inv, where gp = "?gp[nat (?ml + 1) := ?gp ! nat (?ml + 1) + 1]"
        and l = "?ml + 1" and c = c] wf
    by (simp add: wf_graph_def)
  consider (lo) "?lu < 0 \<or> int (length (gap ?g)) \<le> ?lu"
    | (brk) "\<not> (?lu < 0 \<or> int (length (gap ?g)) \<le> ?lu)" "?gp ! nat ?lu = 0"
    | (hi) "\<not> (?lu < 0 \<or> int (length (gap ?g)) \<le> ?lu)" "?gp ! nat ?lu \<noteq> 0"
        "?ml + 1 < 0 \<or> int (length ?gp) \<le> ?ml + 1"
    | (go) "\<not> (?lu < 0 \<or> int (length (gap ?g)) \<le> ?lu)" "?gp ! nat ?lu \<noteq> 0"
        "\<not> (?ml + 1 < 0 \<or> int (length ?gp) \<le> ?ml + 1)"
    by blast
  then show ?thesis
  proof cases
    case lo
    then have "relabel ?st = Inl (Inl (GapOutOfBounds ?lu))" by (simp add: relabel_def Let_def)
    then show ?thesis by (simp add: result_ok_def)
  next
    case brk
    then have "relabel ?st = Inl (Inr (total st, ?g\<lparr>gap := ?gp\<rparr>))"
      by (simp add: relabel_def Let_def)
    with \<open>result_ok a0 (Inr (total st, ?g\<lparr>gap := ?gp\<rparr>))\<close> show ?thesis by simp
  next
    case hi
    then have "relabel ?st = Inl (Inl (GapOutOfBounds (?ml + 1)))" by (simp add: relabel_def Let_def)
    then show ?thesis by (simp add: result_ok_def)
  next
    case go
    then have "relabel ?st = Inr ?st'" by (simp add: relabel_def Let_def)
    with nxt show ?thesis by simp
  qed
qed

lemma isap_round_inv:
  assumes inv: "search_inv a0 s st"
  shows "case isap_round s t st of
           Inl res \<Rightarrow> result_ok a0 res
         | Inr st' \<Rightarrow> search_inv a0 s st'"
proof (cases "level (graph st) ! s < int (n_nodes (graph st))")
  case False
  with inv show ?thesis by (simp add: isap_round_def result_ok_def search_inv_def)
next
  case True
  let ?st1 = "augment_at_sink s t st"
  let ?sc = "scan (level (graph ?st1)) (level (graph ?st1) ! node ?st1)
      (drop (cur ?st1 ! node ?st1) (adj (graph ?st1) ! node ?st1)) (cur ?st1 ! node ?st1)"
  have inv1: "search_inv a0 s ?st1" by (rule augment_at_sink_inv[OF inv])
  show ?thesis
  proof (cases "snd ?sc")
    case adv: True
    then have "?sc = (fst ?sc, True)" by (metis prod.collapse)
    from advance_inv[OF inv1 this] True adv show ?thesis
      by (simp add: isap_round_def Let_def)
  next
    case False
    with relabel_inv[OF inv1, of "fst ?sc"] True show ?thesis
      by (simp add: isap_round_def Let_def)
  qed
qed

lemma isap_loop_inv:
  assumes run: "isap_loop s t st = Some res" and inv: "search_inv a0 s st"
  shows "result_ok a0 res"
proof -
  have "search_inv a0 s st \<longrightarrow> result_ok a0 res"
  proof (rule isap_loop.raw_induct[where P = "\<lambda>s t st res. search_inv a0 s st \<longrightarrow> result_ok a0 res"
        and s = s and t = t and st = st and y = res], goal_cases)
    case (1 loop s' t' st' res')
    show ?case
    proof
      assume i: "search_inv a0 s' st'"
      show "result_ok a0 res'"
      proof (cases "isap_round s' t' st'")
        case (Inl r)
        with 1(2) isap_round_inv[OF i, of t'] show ?thesis by simp
      next
        case (Inr st'')
        with 1(2) isap_round_inv[OF i, of t'] 1(1)[of s' t' st'' res'] show ?thesis by simp
      qed
    qed
  next
    case 2
    show ?case by (rule run)
  qed
  with inv show ?thesis by simp
qed


lemma isap_good:
  assumes wf: "wf_graph g" and ok: "flow_ok g" and s: "s < n_nodes g" and t: "t < n_nodes g"
    and run: "isap g s t = Some (Inr (fl, g'))"
  shows "wf_graph g' \<and> flow_ok g' \<and> frame (adj g) (adj g')"
proof -
  from bfs_ok[OF wf t] obtain lev gp where
    b: "bfs g t = Inr (g\<lparr>level := lev, gap := gp\<rparr>)" and inv: "bfs_inv g t lev gp []" by blast
  let ?g1 = "g\<lparr>level := lev, gap := gp\<rparr>"
  from inv have len: "length lev = n_nodes g" "length gp = n_nodes g" by (auto simp: bfs_inv_def)
  from wf len have wf1: "wf_graph ?g1" by (simp add: wf_graph_def)
  from ok have ok1: "flow_ok ?g1" by (simp add: flow_ok_def)
  show ?thesis
  proof (cases "lev ! s = - 1")
    case True
    with run b s len have "g' = ?g1" by (simp add: isap_def)
    with wf1 ok1 show ?thesis by (simp add: frame_refl)
  next
    case False
    let ?st = "\<lparr>graph = ?g1, cur = replicate (n_nodes ?g1) 0, path = [], node = s, total = 0\<rparr>"
    from False run b s len have "isap_loop s t ?st = Some (Inr (fl, g'))" by (simp add: isap_def)
    moreover have "search_inv (adj g) s ?st"
      using wf1 ok1 s by (simp add: search_inv_def frame_refl)
    ultimately have "result_ok (adj g) (Inr (fl, g'))" by (rule isap_loop_inv)
    then show ?thesis by (simp add: result_ok_def)
  qed
qed

lemma relabel_raw_inv:
  assumes inv: "search_inv a0 s st"
  shows "case relabel_raw (st\<lparr>cur := (cur st)[node st := c]\<rparr>) m of
           Inl res \<Rightarrow> result_ok a0 (Inr res)
         | Inr sm \<Rightarrow> search_inv a0 s (fst sm)"
proof -
  let ?g = "graph st" and ?ps = "path st" and ?cu = "cur st" and ?u = "node st"
  let ?st = "st\<lparr>cur := ?cu[?u := c]\<rparr>"
  let ?lu = "level ?g ! ?u" and ?ml = "min_level ?g ?u"
  obtain gp m1 where s1: "gap_set (gap ?g) m ?lu (gap_get (gap ?g) m ?lu - 1) = (gp, m1)"
    by fastforce
  obtain gp2 m2 where s2: "gap_set gp m1 (?ml + 1) (gap_get gp m1 (?ml + 1) + 1) = (gp2, m2)"
    by fastforce
  from inv have wf: "wf_graph ?g" and ok: "flow_ok ?g" and fr: "frame a0 (adj ?g)"
    by (auto simp: search_inv_def)
  have l1: "length gp = n_nodes ?g" using gap_set_length[OF s1] wf by (simp add: wf_graph_def)
  have l2: "length gp2 = n_nodes ?g" using gap_set_length[OF s2] l1 by simp
  show ?thesis
  proof (cases "gap_get gp m1 ?lu = 0")
    case True
    then have "relabel_raw ?st m = Inl (total st, ?g\<lparr>gap := gp\<rparr>)"
      by (simp add: relabel_raw_def Let_def s1)
    moreover have "result_ok a0 (Inr (total st, ?g\<lparr>gap := gp\<rparr>))"
      using wf ok fr l1 by (simp add: result_ok_def wf_graph_def flow_ok_def)
    ultimately show ?thesis by simp
  next
    case False
    then have "relabel_raw ?st m =
      Inr (st\<lparr>graph := ?g\<lparr>level := (level ?g)[?u := ?ml + 1], gap := gp2\<rparr>,
              cur := (?cu[?u := c])[?u := 0], path := butlast ?ps,
              node := (if ?ps = [] then ?u else last ?ps)\<rparr>, m2)"
      by (simp add: relabel_raw_def Let_def s1 s2)
    with retreat_inv[OF inv l2, where l = "?ml + 1" and c = c] show ?thesis by simp
  qed
qed

lemma isap_round_raw_inv:
  assumes inv: "search_inv a0 s st"
  shows "case isap_round_raw s t st m of
           Inl res \<Rightarrow> result_ok a0 (Inr res)
         | Inr sm \<Rightarrow> search_inv a0 s (fst sm)"
proof (cases "level (graph st) ! s < int (n_nodes (graph st))")
  case False
  with inv show ?thesis by (simp add: isap_round_raw_def result_ok_def search_inv_def)
next
  case True
  let ?st1 = "augment_at_sink s t st"
  let ?sc = "scan (level (graph ?st1)) (level (graph ?st1) ! node ?st1)
      (drop (cur ?st1 ! node ?st1) (adj (graph ?st1) ! node ?st1)) (cur ?st1 ! node ?st1)"
  have inv1: "search_inv a0 s ?st1" by (rule augment_at_sink_inv[OF inv])
  show ?thesis
  proof (cases "snd ?sc")
    case adv: True
    then have "?sc = (fst ?sc, True)" by (metis prod.collapse)
    from advance_inv[OF inv1 this] True adv show ?thesis
      by (simp add: isap_round_raw_def Let_def)
  next
    case False
    with relabel_raw_inv[OF inv1, of "fst ?sc" m] True show ?thesis
      by (simp add: isap_round_raw_def Let_def)
  qed
qed

lemma isap_loop_raw_inv:
  assumes run: "isap_loop_raw s t st m = Some res" and inv: "search_inv a0 s st"
  shows "result_ok a0 (Inr res)"
proof -
  have "search_inv a0 s st \<longrightarrow> result_ok a0 (Inr res)"
  proof (rule isap_loop_raw.raw_induct[where P = "\<lambda>s t st m res. search_inv a0 s st \<longrightarrow> result_ok a0 (Inr res)"
        and s = s and t = t and st = st and m = m and y = res], goal_cases)
    case (1 loop s' t' st' m' res')
    show ?case
    proof
      assume i: "search_inv a0 s' st'"
      show "result_ok a0 (Inr res')"
      proof (cases "isap_round_raw s' t' st' m'")
        case (Inl r)
        with 1(2) isap_round_raw_inv[OF i, of t' m'] show ?thesis by simp
      next
        case (Inr sm)
        obtain st'' m'' where sm: "sm = (st'', m'')" by (cases sm) auto
        with Inr 1(2) isap_round_raw_inv[OF i, of t' m'] 1(1)[of s' t' st'' m'' res'] show ?thesis by simp
      qed
    qed
  next
    case 2
    show ?case by (rule run)
  qed
  with inv show ?thesis by simp
qed

lemma isap_raw_good:
  assumes wf: "wf_graph g" and ok: "flow_ok g" and s: "s < n_nodes g" and t: "t < n_nodes g"
    and run: "isap_raw m g s t = Some (Inr (fl, g'))"
  shows "wf_graph g' \<and> flow_ok g' \<and> frame (adj g) (adj g')"
proof -
  from bfs_ok[OF wf t] obtain lev gp where
    b: "bfs g t = Inr (g\<lparr>level := lev, gap := gp\<rparr>)" and inv: "bfs_inv g t lev gp []" by blast
  let ?g1 = "g\<lparr>level := lev, gap := gp\<rparr>"
  from inv have len: "length lev = n_nodes g" "length gp = n_nodes g" by (auto simp: bfs_inv_def)
  from wf len have wf1: "wf_graph ?g1" by (simp add: wf_graph_def)
  from ok have ok1: "flow_ok ?g1" by (simp add: flow_ok_def)
  show ?thesis
  proof (cases "lev ! s = - 1")
    case True
    with run b s len have "g' = ?g1" by (simp add: isap_raw_def)
    with wf1 ok1 show ?thesis by (simp add: frame_refl)
  next
    case False
    let ?st = "\<lparr>graph = ?g1, cur = replicate (n_nodes ?g1) 0, path = [], node = s, total = 0\<rparr>"
    from False run b s len have "isap_loop_raw s t ?st m = Some (fl, g')" by (auto simp: isap_raw_def)
    moreover have "search_inv (adj g) s ?st"
      using wf1 ok1 s by (simp add: search_inv_def frame_refl)
    ultimately have "result_ok (adj g) (Inr (fl, g'))" by (rule isap_loop_raw_inv)
    then show ?thesis by (simp add: result_ok_def)
  qed
qed

lemma add_edge_adj:
  assumes len: "length (adj g) = n_nodes g" and u: "u < n_nodes g" and v: "v < n_nodes g"
  shows "length (adj (add_edge g u v c)) = n_nodes g"
    and "x < n_nodes g \<Longrightarrow> length (adj (add_edge g u v c) ! x)
           = length (adj g ! x) + (if x = u then 1 else 0) + (if x = v then 1 else 0)"
    and "x < n_nodes g \<Longrightarrow> i < length (adj g ! x) \<Longrightarrow> adj (add_edge g u v c) ! x ! i = adj g ! x ! i"
    and "adj (add_edge g u v c) ! u ! length (adj g ! u)
           = \<lparr>to = v, cap = c, flow = 0, rev_idx = length (adj g ! v)\<rparr>"
    and "adj (add_edge g u v c) ! v ! (length (adj g ! v) + (if u = v then 1 else 0))
           = \<lparr>to = u, cap = 0, flow = 0, rev_idx = length (adj g ! u)\<rparr>"
proof -
  let ?a = "adj g" and ?n = "n_nodes g"
  define e1 where "e1 = \<lparr>to = v, cap = c, flow = 0, rev_idx = length (?a ! v)\<rparr>"
  define a1 where "a1 = ?a[u := ?a ! u @ [e1]]"
  define e2 where "e2 = \<lparr>to = u, cap = 0, flow = 0, rev_idx = length (a1 ! u) - 1\<rparr>"
  define a2 where "a2 = a1[v := a1 ! v @ [e2]]"
  have g': "adj (add_edge g u v c) = a2"
    by (simp add: add_edge_def Let_def a2_def e2_def a1_def e1_def)
  have a1: "a1 ! x = (if x = u then ?a ! u @ [e1] else ?a ! x)" if "x < ?n" for x
    using that len by (simp add: a1_def)
  have a2: "a2 ! x = (if x = v then a1 ! v @ [e2] else a1 ! x)" if "x < ?n" for x
    using that len by (simp add: a2_def a1_def)
  have e2': "e2 = \<lparr>to = u, cap = 0, flow = 0, rev_idx = length (?a ! u)\<rparr>"
    using u by (simp add: e2_def a1)
  show "length (adj (add_edge g u v c)) = ?n" using len by (simp add: g' a2_def a1_def)
  show "x < ?n \<Longrightarrow> length (adj (add_edge g u v c) ! x)
           = length (?a ! x) + (if x = u then 1 else 0) + (if x = v then 1 else 0)"
    using v by (simp add: g' a1 a2)
  show "x < ?n \<Longrightarrow> i < length (?a ! x) \<Longrightarrow> adj (add_edge g u v c) ! x ! i = ?a ! x ! i"
    using v by (auto simp: g' a1 a2 nth_append)
  show "adj (add_edge g u v c) ! u ! length (?a ! u) = \<lparr>to = v, cap = c, flow = 0, rev_idx = length (?a ! v)\<rparr>"
    using u v by (auto simp: g' a1 a2 nth_append e1_def)
  show "adj (add_edge g u v c) ! v ! (length (?a ! v) + (if u = v then 1 else 0))
           = \<lparr>to = u, cap = 0, flow = 0, rev_idx = length (?a ! u)\<rparr>"
    using u v by (auto simp: g' a1 a2 nth_append e2')
qed

lemma flow_ok_add_edge:
  assumes wf: "wf_graph g" and ok: "flow_ok g" and u: "u < n_nodes g" and v: "v < n_nodes g"
    and c: "0 \<le> c"
  shows "flow_ok (add_edge g u v c)"
proof -
  let ?a = "adj g" and ?n = "n_nodes g" and ?g' = "add_edge g u v c"
  let ?a' = "adj ?g'"
  from wf have len: "length ?a = ?n" by (simp add: wf_graph_def)
  note ae = add_edge_adj[OF len u v, where c = c]
  have n': "n_nodes ?g' = ?n" by (simp add: add_edge_def Let_def)
  have "flow (?a' ! x ! i) \<le> cap (?a' ! x ! i) \<and>
        (to (?a' ! x ! i) \<noteq> x \<longrightarrow> flow (mate ?a' x i) = - flow (?a' ! x ! i)) \<and>
        (to (?a' ! x ! i) = x \<longrightarrow> flow (?a' ! x ! i) = 0)"
    if x: "x < ?n" and i: "i < length (?a' ! x)" for x i
  proof (cases "i < length (?a ! x)")
    case True
    note o = ae(3)[OF x True]
    from wf x True have w: "to (?a ! x ! i) < ?n" "rev_idx (?a ! x ! i) < length (?a ! to (?a ! x ! i))"
      by (auto simp: wf_graph_def)
    have "mate ?a' x i = mate ?a x i"
      unfolding mate_def[of ?a'] o using ae(3)[OF w] by (simp add: mate_def)
    with ok x True o show ?thesis by (simp add: flow_ok_def)
  next
    case False
    with i ae(2)[OF x]
    have "(x = u \<and> i = length (?a ! u)) \<or> (x = v \<and> i = length (?a ! v) + (if u = v then 1 else 0))"
      by (cases "x = u"; cases "x = v") (auto simp: less_Suc_eq)
    then consider (fw) "x = u" "i = length (?a ! u)"
      | (bw) "x = v" "i = length (?a ! v) + (if u = v then 1 else 0)"
      by blast
    then show ?thesis
    proof cases
      case fw
      then have r: "?a' ! x ! i = \<lparr>to = v, cap = c, flow = 0, rev_idx = length (?a ! v)\<rparr>"
        using ae(4) by simp
      have "v \<noteq> u \<Longrightarrow> mate ?a' x i = \<lparr>to = u, cap = 0, flow = 0, rev_idx = length (?a ! u)\<rparr>"
        unfolding mate_def[of ?a'] r using ae(5) by simp
      with r c fw show ?thesis by auto
    next
      case bw
      then have r: "?a' ! x ! i = \<lparr>to = u, cap = 0, flow = 0, rev_idx = length (?a ! u)\<rparr>"
        using ae(5) by simp
      have "mate ?a' x i = \<lparr>to = v, cap = c, flow = 0, rev_idx = length (?a ! v)\<rparr>"
        unfolding mate_def[of ?a'] r using ae(4) by simp
      with r bw show ?thesis by auto
    qed
  qed
  then show ?thesis unfolding flow_ok_def n' by blast
qed


text \<open>
  The graphs a caller can hold: built by the constructor, by \<^verbatim>\<open>add_edge\<close> with nodes
  below \<open>n\<close> and a capacity that is not negative, and by calls of \<^verbatim>\<open>isap\<close> that
  return: the calls whose accesses to \<^verbatim>\<open>gap\<close> stay inside the vector (\<open>built_run\<close>)
  and the calls that run past an access outside it, whatever the cells around the vector
  hold (\<open>built_run_raw\<close>). The list records, for every \<^verbatim>\<open>add_edge\<close> call, the
  positions (node, index) of the forward record and of the reverse record it pushed.
\<close>

inductive built :: "Isap \<Rightarrow> ((nat \<times> nat) \<times> (nat \<times> nat)) list \<Rightarrow> bool" where
  built_new: "built (Isap_new k) []"
| built_add: "built g ps \<Longrightarrow> u < n_nodes g \<Longrightarrow> v < n_nodes g \<Longrightarrow> 0 \<le> c \<Longrightarrow>
     built (add_edge g u v c)
       (ps @ [((u, length (adj g ! u)), (v, length (adj g ! v) + (if u = v then 1 else 0)))])"
| built_run: "built g ps \<Longrightarrow> s < n_nodes g \<Longrightarrow> t < n_nodes g \<Longrightarrow>
     isap g s t = Some (Inr (fl, g')) \<Longrightarrow> built g' ps"
| built_run_raw: "built g ps \<Longrightarrow> s < n_nodes g \<Longrightarrow> t < n_nodes g \<Longrightarrow>
     isap_raw m g s t = Some (Inr (fl, g')) \<Longrightarrow> built g' ps"

text \<open>What the recorded positions hold: the two records of one \<^verbatim>\<open>add_edge\<close> call.\<close>

definition pairs_ok :: "Isap \<Rightarrow> ((nat \<times> nat) \<times> (nat \<times> nat)) list \<Rightarrow> bool" where
  "pairs_ok g ps \<longleftrightarrow>
     (\<forall>((u, i), (v, j)) \<in> set ps.
        u < n_nodes g \<and> i < length (adj g ! u) \<and> v < n_nodes g \<and> j < length (adj g ! v) \<and>
        to (adj g ! u ! i) = v \<and> to (adj g ! v ! j) = u \<and> cap (adj g ! v ! j) = 0 \<and>
        (u \<noteq> v \<longrightarrow> rev_idx (adj g ! u ! i) = j))"

lemma pairs_ok_frame:
  assumes "pairs_ok g ps" "frame (adj g) (adj g')" "n_nodes g' = n_nodes g"
    "length (adj g) = n_nodes g"
  shows "pairs_ok g' ps"
  using assms unfolding pairs_ok_def frame_def by fastforce

lemma pairs_ok_add_edge:
  assumes wf: "wf_graph g" and pk: "pairs_ok g ps" and u: "u < n_nodes g" and v: "v < n_nodes g"
  shows "pairs_ok (add_edge g u v c)
     (ps @ [((u, length (adj g ! u)), (v, length (adj g ! v) + (if u = v then 1 else 0)))])"
proof -
  let ?g' = "add_edge g u v c"
  from wf have len: "length (adj g) = n_nodes g" by (simp add: wf_graph_def)
  note ae = add_edge_adj[OF len u v, where c = c]
  have n': "n_nodes ?g' = n_nodes g" by (simp add: add_edge_def Let_def)
  have old: "pairs_ok ?g' ps"
    unfolding pairs_ok_def n'
  proof (intro ballI, clarify)
    fix x i y j assume "((x, i), (y, j)) \<in> set ps"
    with pk have h: "x < n_nodes g" "i < length (adj g ! x)" "y < n_nodes g" "j < length (adj g ! y)"
      "to (adj g ! x ! i) = y" "to (adj g ! y ! j) = x" "cap (adj g ! y ! j) = 0"
      "x \<noteq> y \<longrightarrow> rev_idx (adj g ! x ! i) = j"
      unfolding pairs_ok_def by auto
    from h ae(2)[OF h(1)] ae(2)[OF h(3)] ae(3)[OF h(1,2)] ae(3)[OF h(3,4)]
    show "x < n_nodes g \<and> i < length (adj ?g' ! x) \<and> y < n_nodes g \<and> j < length (adj ?g' ! y) \<and>
        to (adj ?g' ! x ! i) = y \<and> to (adj ?g' ! y ! j) = x \<and> cap (adj ?g' ! y ! j) = 0 \<and>
        (x \<noteq> y \<longrightarrow> rev_idx (adj ?g' ! x ! i) = j)"
      by simp
  qed
  have new: "pairs_ok ?g' [((u, length (adj g ! u)), (v, length (adj g ! v) + (if u = v then 1 else 0)))]"
    unfolding pairs_ok_def n' using u v ae(2)[OF u] ae(2)[OF v] ae(4) ae(5)
    by (auto split: if_splits)
  from old new show ?thesis unfolding pairs_ok_def by auto
qed

lemma built_good:
  assumes "built g ps"
  shows "wf_graph g \<and> flow_ok g \<and> pairs_ok g ps"
  using assms
proof (induction rule: built.induct)
  case (built_new k)
  show ?case
    by (simp add: wf_graph_Isap_new pairs_ok_def) (simp add: flow_ok_def Isap_new_def)
next
  case (built_add g ps u v c)
  then have wf: "wf_graph g" and ok: "flow_ok g" and pk: "pairs_ok g ps" by auto
  from wf_graph_add_edge[OF wf built_add.hyps(2,3)]
    flow_ok_add_edge[OF wf ok built_add.hyps(2,3,4)]
    pairs_ok_add_edge[OF wf pk built_add.hyps(2,3)]
  show ?case by blast
next
  case (built_run g ps s t fl g')
  then have wf: "wf_graph g" and ok: "flow_ok g" and pk: "pairs_ok g ps" by auto
  from isap_good[OF wf ok built_run.hyps(2,3,4)]
  have g': "wf_graph g'" "flow_ok g'" "frame (adj g) (adj g')" by auto
  from wf g'(1,3) have "n_nodes g' = n_nodes g" "length (adj g) = n_nodes g"
    by (auto simp: wf_graph_def frame_def)
  with pairs_ok_frame[OF pk g'(3)] g' show ?case by simp
next
  case (built_run_raw g ps s t m fl g')
  then have wf: "wf_graph g" and ok: "flow_ok g" and pk: "pairs_ok g ps" by auto
  from isap_raw_good[OF wf ok built_run_raw.hyps(2,3,4)]
  have g': "wf_graph g'" "flow_ok g'" "frame (adj g) (adj g')" by auto
  from wf g'(1,3) have "n_nodes g' = n_nodes g" "length (adj g) = n_nodes g"
    by (auto simp: wf_graph_def frame_def)
  with pairs_ok_frame[OF pk g'(3)] g' show ?case by simp
qed

lemma built_pair_flows:
  assumes "built g ps" and "((u, i), (v, j)) \<in> set ps"
  shows "flow (adj g ! u ! i) = - flow (adj g ! v ! j) \<and>
         0 \<le> flow (adj g ! u ! i) \<and> flow (adj g ! u ! i) \<le> cap (adj g ! u ! i)"
proof -
  from built_good[OF assms(1)] have wf: "wf_graph g" and ok: "flow_ok g" and pk: "pairs_ok g ps"
    by auto
  from pk assms(2) have h: "u < n_nodes g" "i < length (adj g ! u)" "v < n_nodes g"
    "j < length (adj g ! v)" "to (adj g ! u ! i) = v" "to (adj g ! v ! j) = u"
    "cap (adj g ! v ! j) = 0" "u \<noteq> v \<longrightarrow> rev_idx (adj g ! u ! i) = j"
    unfolding pairs_ok_def by auto
  from ok h(1,2) have fw: "flow (adj g ! u ! i) \<le> cap (adj g ! u ! i)"
    "to (adj g ! u ! i) \<noteq> u \<longrightarrow> flow (mate (adj g) u i) = - flow (adj g ! u ! i)"
    "to (adj g ! u ! i) = u \<longrightarrow> flow (adj g ! u ! i) = 0"
    unfolding flow_ok_def by auto
  from ok h(3,4) have bw: "flow (adj g ! v ! j) \<le> cap (adj g ! v ! j)"
    "to (adj g ! v ! j) = v \<longrightarrow> flow (adj g ! v ! j) = 0"
    unfolding flow_ok_def by auto
  show ?thesis
  proof (cases "u = v")
    case True
    with fw bw h show ?thesis by auto
  next
    case False
    with h have "mate (adj g) u i = adj g ! v ! j" by (simp add: mate_def)
    with fw bw h False show ?thesis by auto
  qed
qed

section \<open>Conservation and the value of the flow\<close>

text \<open>
  The net flow leaving a node, read off its adjacency vector: a forward record counts
  its flow, a reverse record the negated flow of the edge that enters.
\<close>

definition excess :: "Edge list list \<Rightarrow> nat \<Rightarrow> int" where
  "excess a v = sum_list (map flow (a ! v))"

lemma sum_list_flow_update:
  "i < length xs \<Longrightarrow> sum_list (map flow (xs[i := e])) = sum_list (map flow xs) - flow (xs ! i) + flow e"
proof (induction xs arbitrary: i)
  case Nil
  then show ?case by simp
next
  case (Cons x xs)
  then show ?case by (cases i) auto
qed

lemma push_rows:
  assumes wf: "wf_graph g" and p: "p < n_nodes g" and c: "cu ! p < length (adj g ! p)"
    and np: "to (adj g ! p ! (cu ! p)) \<noteq> p"
  shows "push cu f p (adj g) ! x =
      (if x = p then (adj g ! p)[cu ! p := (adj g ! p ! (cu ! p))\<lparr>flow := flow (adj g ! p ! (cu ! p)) + f\<rparr>]
       else if x = to (adj g ! p ! (cu ! p))
         then (adj g ! x)[rev_idx (adj g ! p ! (cu ! p)) :=
                (mate (adj g) p (cu ! p))\<lparr>flow := flow (mate (adj g) p (cu ! p)) - f\<rparr>]
       else adj g ! x)"
proof -
  let ?a = "adj g" and ?e = "adj g ! p ! (cu ! p)"
  from wf have len: "length ?a = n_nodes g" by (simp add: wf_graph_def)
  from wf p c have v: "to ?e < n_nodes g" by (auto simp: wf_graph_def)
  define a1 where "a1 = ?a[p := (?a ! p)[cu ! p := ?e\<lparr>flow := flow ?e + f\<rparr>]]"
  have a1p: "a1 ! p ! (cu ! p) = ?e\<lparr>flow := flow ?e + f\<rparr>"
    using p c len by (simp add: a1_def)
  have a1v: "a1 ! to ?e = ?a ! to ?e" using np by (simp add: a1_def)
  have pu: "push cu f p ?a = a1[to ?e := (?a ! to ?e)[rev_idx ?e := (mate ?a p (cu ! p))\<lparr>flow := flow (mate ?a p (cu ! p)) - f\<rparr>]]"
    unfolding push_def Let_def a1_def[symmetric] a1p by (simp add: a1v mate_def)
  show ?thesis
    unfolding pu a1_def using len p v np by (auto simp: nth_list_update)
qed

lemma push_excess:
  assumes wf: "wf_graph g" and p: "p < n_nodes g" and c: "cu ! p < length (adj g ! p)"
    and np: "to (adj g ! p ! (cu ! p)) \<noteq> p"
  shows "excess (push cu f p (adj g)) x =
     excess (adj g) x + (if x = p then f else 0) - (if x = to (adj g ! p ! (cu ! p)) then f else 0)"
proof -
  let ?a = "adj g" and ?e = "adj g ! p ! (cu ! p)"
  from wf p c have r: "rev_idx ?e < length (?a ! to ?e)" by (auto simp: wf_graph_def)
  have m: "mate ?a p (cu ! p) = ?a ! to ?e ! rev_idx ?e" by (simp add: mate_def)
  show ?thesis
    unfolding excess_def push_rows[OF assms] m
    using c r np by (auto simp: sum_list_flow_update)
qed


lemma push_other_arc:
  assumes wf: "wf_graph g" and p: "p < n_nodes g" and c: "cu ! p < length (adj g ! p)"
    and lp: "level g ! p = level g ! to (adj g ! p ! (cu ! p)) + 1"
    and qp: "q \<noteq> p" and lq: "level g ! q = level g ! to (adj g ! q ! (cu ! q)) + 1"
  shows "push cu f p (adj g) ! q ! (cu ! q) = adj g ! q ! (cu ! q)"
proof -
  let ?a = "adj g" and ?e = "adj g ! p ! (cu ! p)"
  from lp have np: "to ?e \<noteq> p" by auto
  from wf p c np have ret: "to (mate ?a p (cu ! p)) = p" by (auto simp: wf_graph_def)
  have "\<not> (q = to ?e \<and> cu ! q = rev_idx ?e)"
  proof
    assume h: "q = to ?e \<and> cu ! q = rev_idx ?e"
    then have "?a ! q ! (cu ! q) = mate ?a p (cu ! p)" unfolding mate_def by metis
    with ret lq have "level g ! q = level g ! p + 1" by simp
    with lp h show False by simp
  qed
  with qp show ?thesis by (auto simp: push_nth(3)[OF wf p c np])
qed

lemma augment_excess:
  assumes "wf_graph g" "distinct ps"
    and "\<forall>p \<in> set ps. p < n_nodes g \<and> cu ! p < length (adj g ! p) \<and>
           level g ! p = level g ! to (adj g ! p ! (cu ! p)) + 1"
    and "\<forall>i < length ps. to (adj g ! (ps ! i) ! (cu ! (ps ! i))) = (ps @ [w]) ! Suc i"
  shows "excess (augment (adj g) cu ps f) x =
     excess (adj g) x + (if ps \<noteq> [] \<and> x = hd ps then f else 0) - (if ps \<noteq> [] \<and> x = w then f else 0)"
  using assms
proof (induction ps arbitrary: g)
  case Nil
  then show ?case by (simp add: augment_def)
next
  case (Cons p ps)
  let ?a = "adj g" and ?e = "adj g ! p ! (cu ! p)"
  let ?g1 = "g\<lparr>adj := push cu f p ?a\<rparr>"
  from Cons.prems have p: "p < n_nodes g" "cu ! p < length (?a ! p)"
    "level g ! p = level g ! to ?e + 1" by auto
  from p(3) have np: "to ?e \<noteq> p" by auto
  have fr: "frame ?a (push cu f p ?a)" by (rule push_frame[OF Cons.prems(1) p(1,2) np])
  then have wf1: "wf_graph ?g1" by (rule wf_graph_frame[OF Cons.prems(1)])
  note lens = push_nth(2)[OF Cons.prems(1) p(1,2) np, where f = f]
  have arc: "push cu f p ?a ! q ! (cu ! q) = ?a ! q ! (cu ! q)" if "q \<in> set ps" for q
  proof -
    from that Cons.prems(2) have "q \<noteq> p" by auto
    moreover from that Cons.prems(3)
    have "level g ! q = level g ! to (?a ! q ! (cu ! q)) + 1" by auto
    ultimately show ?thesis by (rule push_other_arc[OF Cons.prems(1) p])
  qed
  have adm1: "\<forall>q \<in> set ps. q < n_nodes ?g1 \<and> cu ! q < length (adj ?g1 ! q) \<and>
           level ?g1 ! q = level ?g1 ! to (adj ?g1 ! q ! (cu ! q)) + 1"
    using Cons.prems(3) arc by (simp add: lens)
  have link1: "\<forall>i < length ps. to (adj ?g1 ! (ps ! i) ! (cu ! (ps ! i))) = (ps @ [w]) ! Suc i"
  proof (intro allI impI)
    fix i assume i: "i < length ps"
    then have "ps ! i \<in> set ps" by simp
    from arc[OF this] have "to (adj ?g1 ! (ps ! i) ! (cu ! (ps ! i))) = to (?a ! ((p # ps) ! Suc i) ! (cu ! ((p # ps) ! Suc i)))"
      by simp
    also from Cons.prems(4) i have "\<dots> = ((p # ps) @ [w]) ! Suc (Suc i)" by auto
    finally show "to (adj ?g1 ! (ps ! i) ! (cu ! (ps ! i))) = (ps @ [w]) ! Suc i" by simp
  qed
  from Cons.prems(2) have d: "distinct ps" by simp
  from Cons.prems(4) have nxt: "to ?e = (ps @ [w]) ! 0" by fastforce
  have "excess (augment ?a cu (p # ps) f) x = excess (augment (adj ?g1) cu ps f) x"
    by (simp add: augment_def)
  also have "\<dots> = excess (adj ?g1) x + (if ps \<noteq> [] \<and> x = hd ps then f else 0)
      - (if ps \<noteq> [] \<and> x = w then f else 0)"
    by (rule Cons.IH[OF wf1 d adm1 link1])
  also have "excess (adj ?g1) x = excess ?a x + (if x = p then f else 0) - (if x = to ?e then f else 0)"
    using push_excess[OF Cons.prems(1) p(1,2) np] by simp
  finally show ?case using nxt by (cases ps) auto
qed

lemma wrap32_id: "- 2147483648 \<le> x \<Longrightarrow> x < 2147483648 \<Longrightarrow> wrap32 x = x"
  by (simp add: wrap32_def)

lemma excess_le_cap:
  assumes "flow_ok g" "v < n_nodes g"
  shows "excess (adj g) v \<le> sum_list (map cap (adj g ! v))"
proof -
  have "\<forall>e \<in> set (adj g ! v). flow e \<le> cap e"
    using assms by (auto simp: flow_ok_def in_set_conv_nth)
  then show ?thesis unfolding excess_def by (intro sum_list_mono) auto
qed

lemma frame_caps: "frame a a' \<Longrightarrow> v < length a \<Longrightarrow> map cap (a' ! v) = map cap (a ! v)"
  by (auto simp: frame_def intro!: nth_equalityI)

text \<open>
  The second part of the invariant of the search state: the path is linked (the current
  arc of each node leads to the next one, the last to the current node), it starts at
  the source, and the net flow out of every node is what it was at the start, plus the
  accumulated flow at the source and minus it at the sink. For a source other than the
  sink, the accumulated flow is not negative, and the capacities of the records at the
  source exceed the net flow that left it at the start by less than \<open>2\<^sup>3\<^sup>1\<close>: the
  32-bit sum \<^verbatim>\<open>flow += f\<close> then does not wrap.
\<close>

definition search_inv2 :: "Edge list list \<Rightarrow> nat \<Rightarrow> nat \<Rightarrow> search \<Rightarrow> bool" where
  "search_inv2 a0 s t st \<longleftrightarrow>
     search_inv a0 s st \<and>
     (\<forall>i < length (path st).
        to (adj (graph st) ! (path st ! i) ! (cur st ! (path st ! i))) = (path st @ [node st]) ! Suc i) \<and>
     (path st @ [node st]) ! 0 = s \<and>
     (s \<noteq> t \<longrightarrow> 0 \<le> total st \<and> sum_list (map cap (a0 ! s)) - excess a0 s < 2147483648) \<and>
     (\<forall>v < n_nodes (graph st).
        excess (adj (graph st)) v =
          excess a0 v + (if v = s then total st else 0) - (if v = t then total st else 0))"

text \<open>What the second part of the invariant gives for a returned result.\<close>

definition result_ok2 :: "Edge list list \<Rightarrow> nat \<Rightarrow> nat \<Rightarrow> error + int \<times> Isap \<Rightarrow> bool" where
  "result_ok2 a0 s t res \<longleftrightarrow>
     (case res of
        Inl err \<Rightarrow> True
      | Inr (fl, g') \<Rightarrow>
          (\<forall>v < n_nodes g'. excess (adj g') v =
             excess a0 v + (if v = s then fl else 0) - (if v = t then fl else 0)))"

lemma augment_at_sink_inv2:
  assumes inv: "search_inv2 a0 s t st"
  shows "search_inv2 a0 s t (augment_at_sink s t st)"
proof (cases "node st = t")
  case False
  with inv show ?thesis by (simp add: augment_at_sink_def)
next
  case True
  let ?g = "graph st" and ?ps = "path st" and ?cu = "cur st"
  let ?f = "bottleneck (adj ?g) ?cu ?ps"
  from inv have i1: "search_inv a0 s st"
    and link: "\<forall>i < length ?ps. to (adj ?g ! (?ps ! i) ! (?cu ! (?ps ! i))) = (?ps @ [node st]) ! Suc i"
    and start: "(?ps @ [node st]) ! 0 = s"
    and ex: "\<forall>v < n_nodes ?g. excess (adj ?g) v =
          excess a0 v + (if v = s then total st else 0) - (if v = t then total st else 0)"
    by (auto simp: search_inv2_def)
  from i1 have wf: "wf_graph ?g"
    and lv: "\<forall>i < length ?ps. level ?g ! (?ps ! i) = level ?g ! node st + int (length ?ps - i)"
    and adm: "\<forall>p \<in> set ?ps. p < n_nodes ?g \<and> ?cu ! p < length (adj ?g ! p) \<and>
        flow (adj ?g ! p ! (?cu ! p)) < cap (adj ?g ! p ! (?cu ! p)) \<and>
        level ?g ! p = level ?g ! to (adj ?g ! p ! (?cu ! p)) + 1"
    by (auto simp: search_inv_def)
  have e': "excess (augment (adj ?g) ?cu ?ps ?f) x =
     excess (adj ?g) x + (if ?ps \<noteq> [] \<and> x = hd ?ps then ?f else 0) - (if ?ps \<noteq> [] \<and> x = t then ?f else 0)" for x
    by (rule augment_excess[OF wf path_levels_distinct(1)[OF lv]]) (use adm link True in auto)
  have hd: "?ps \<noteq> [] \<Longrightarrow> hd ?ps = s" using start by (cases ?ps) auto
  have st: "?ps = [] \<Longrightarrow> s = t" using start True by simp
  have ex': "excess (augment (adj ?g) ?cu ?ps ?f) v =
          excess a0 v + (if v = s then total st + ?f else 0) - (if v = t then total st + ?f else 0)"
    if "v < n_nodes ?g" for v
  proof -
    from ex that have "excess (adj ?g) v =
          excess a0 v + (if v = s then total st else 0) - (if v = t then total st else 0)" by simp
    with e'[of v] hd st show ?thesis by (cases "?ps = []") (simp_all only: if_True if_False refl simp_thms, auto)
  qed
  from inv have tb: "s \<noteq> t \<longrightarrow> 0 \<le> total st \<and> sum_list (map cap (a0 ! s)) - excess a0 s < 2147483648"
    by (simp add: search_inv2_def)
  from augment_at_sink_inv[OF i1, of t] have i1': "search_inv a0 s (augment_at_sink s t st)" .
  let ?a' = "augment (adj ?g) ?cu ?ps ?f"
  have f0: "0 \<le> ?f" unfolding bottleneck_def
    by (rule fold_min_nonneg) (use adm in \<open>auto simp: INF_cap_def\<close>)
  have nw: "wrap32 (total st + ?f) = total st + ?f" if st: "s \<noteq> t"
  proof -
    from i1' True have ok': "flow_ok (?g\<lparr>adj := ?a'\<rparr>)" and fr': "frame a0 ?a'"
      and s': "s < n_nodes ?g"
      by (simp_all add: search_inv_def augment_at_sink_def Let_def)
    from i1 wf s' have sl: "s < length a0" by (simp add: search_inv_def frame_def wf_graph_def)
    from excess_le_cap[OF ok'] s' have "excess ?a' s \<le> sum_list (map cap (?a' ! s))" by simp
    also have "\<dots> = sum_list (map cap (a0 ! s))" using frame_caps[OF fr' sl] by simp
    finally have "excess ?a' s \<le> sum_list (map cap (a0 ! s))" .
    moreover from ex'[OF s'] st have "excess ?a' s = excess a0 s + total st + ?f" by simp
    ultimately have "total st + ?f < 2147483648" using tb st by simp
    moreover from tb st f0 have "0 \<le> total st + ?f" by simp
    ultimately show ?thesis by (simp add: wrap32_id)
  qed
  have ex'': "excess ?a' v = excess a0 v + (if v = s then wrap32 (total st + ?f) else 0)
      - (if v = t then wrap32 (total st + ?f) else 0)" if v: "v < n_nodes ?g" for v
  proof (cases "s = t")
    case True
    with ex'[OF v] show ?thesis by simp
  next
    case False
    with ex'[OF v] nw show ?thesis by simp
  qed
  from tb nw f0 have tb': "s \<noteq> t \<longrightarrow> 0 \<le> wrap32 (total st + ?f) \<and>
      sum_list (map cap (a0 ! s)) - excess a0 s < 2147483648" by auto
  from i1' ex'' tb' True show ?thesis
    by (simp add: search_inv2_def augment_at_sink_def Let_def)
qed


lemma advance_inv2:
  assumes inv: "search_inv2 a0 s t st"
    and sc: "scan (level (graph st)) (level (graph st) ! node st)
               (drop (cur st ! node st) (adj (graph st) ! node st)) (cur st ! node st) = (c, True)"
  shows "search_inv2 a0 s t (st\<lparr>cur := (cur st)[node st := c], path := path st @ [node st],
                             node := to (adj (graph st) ! node st ! c)\<rparr>)"
proof -
  let ?g = "graph st" and ?ps = "path st" and ?cu = "cur st" and ?u = "node st"
  from inv have i1: "search_inv a0 s st"
    and link: "\<forall>i < length ?ps. to (adj ?g ! (?ps ! i) ! (?cu ! (?ps ! i))) = (?ps @ [?u]) ! Suc i"
    and start: "(?ps @ [?u]) ! 0 = s"
    and ex: "\<forall>v < n_nodes ?g. excess (adj ?g) v =
          excess a0 v + (if v = s then total st else 0) - (if v = t then total st else 0)"
    by (auto simp: search_inv2_def)
  from i1 have u: "?u < n_nodes ?g" and len: "length ?cu = n_nodes ?g"
    and lv: "\<forall>i < length ?ps. level ?g ! (?ps ! i) = level ?g ! ?u + int (length ?ps - i)"
    by (auto simp: search_inv_def)
  from path_levels_distinct(2)[OF lv] have notin: "?u \<notin> set ?ps" .
  have link': "to (adj ?g ! ((?ps @ [?u]) ! i) ! (?cu[?u := c] ! ((?ps @ [?u]) ! i)))
      = ((?ps @ [?u]) @ [to (adj ?g ! ?u ! c)]) ! Suc i" if i: "i < length (?ps @ [?u])" for i
  proof (cases "i < length ?ps")
    case True
    then have "?ps ! i \<in> set ?ps" by simp
    with notin have "?ps ! i \<noteq> ?u" by auto
    with True link show ?thesis by (simp add: nth_append)
  next
    case False
    with i have "i = length ?ps" by simp
    with u len show ?thesis by (simp add: nth_append)
  qed
  have start': "((?ps @ [?u]) @ [to (adj ?g ! ?u ! c)]) ! 0 = s"
    using start by (cases ?ps) auto
  from inv have tb: "s \<noteq> t \<longrightarrow> 0 \<le> total st \<and> sum_list (map cap (a0 ! s)) - excess a0 s < 2147483648"
    by (simp add: search_inv2_def)
  from advance_inv[OF i1 sc] link' start' ex tb show ?thesis
    unfolding search_inv2_def by simp
qed

lemma retreat_inv2:
  assumes inv: "search_inv2 a0 s t st" and gp: "length gp = n_nodes (graph st)"
  shows "search_inv2 a0 s t
     (st\<lparr>graph := (graph st)\<lparr>level := (level (graph st))[node st := l], gap := gp\<rparr>,
         cur := ((cur st)[node st := c])[node st := 0],
         path := butlast (path st),
         node := (if path st = [] then node st else last (path st))\<rparr>)"
proof -
  let ?g = "graph st" and ?ps = "path st" and ?cu = "cur st" and ?u = "node st"
  from inv have i1: "search_inv a0 s st"
    and link: "\<forall>i < length ?ps. to (adj ?g ! (?ps ! i) ! (?cu ! (?ps ! i))) = (?ps @ [?u]) ! Suc i"
    and start: "(?ps @ [?u]) ! 0 = s"
    and tb: "s \<noteq> t \<longrightarrow> 0 \<le> total st \<and> sum_list (map cap (a0 ! s)) - excess a0 s < 2147483648"
    and ex: "\<forall>v < n_nodes ?g. excess (adj ?g) v =
          excess a0 v + (if v = s then total st else 0) - (if v = t then total st else 0)"
    by (auto simp: search_inv2_def)
  from i1 have lv: "\<forall>i < length ?ps. level ?g ! (?ps ! i) = level ?g ! ?u + int (length ?ps - i)"
    by (auto simp: search_inv_def)
  from path_levels_distinct(2)[OF lv] have notin: "?u \<notin> set ?ps" .
  have link': "to (adj ?g ! (butlast ?ps ! i) ! ((?cu[?u := c])[?u := 0] ! (butlast ?ps ! i)))
      = (butlast ?ps @ [if ?ps = [] then ?u else last ?ps]) ! Suc i" if i: "i < length (butlast ?ps)" for i
  proof -
    from i have ne: "?ps \<noteq> []" and i': "Suc i < length ?ps" by auto
    then have "?ps ! i \<in> set ?ps" by simp
    with notin have nu: "?ps ! i \<noteq> ?u" by auto
    from ne have "butlast ?ps @ [last ?ps] = ?ps" by simp
    then have "(butlast ?ps @ [last ?ps]) ! Suc i = ?ps ! Suc i" by simp
    moreover from link i' have "to (adj ?g ! (?ps ! i) ! (?cu ! (?ps ! i))) = ?ps ! Suc i"
      by (simp add: nth_append)
    ultimately show ?thesis using ne nu i by (simp add: nth_butlast)
  qed
  have start': "(butlast ?ps @ [if ?ps = [] then ?u else last ?ps]) ! 0 = s"
  proof (cases "?ps = []")
    case True
    with start show ?thesis by simp
  next
    case False
    then have "butlast ?ps @ [last ?ps] = ?ps" by simp
    then have "(butlast ?ps @ [last ?ps]) ! 0 = ?ps ! 0" by simp
    with False start show ?thesis by (simp add: nth_append)
  qed
  from retreat_inv[OF i1 gp, where l = l and c = c] link' start' ex tb show ?thesis
    unfolding search_inv2_def by simp
qed

lemma relabel_inv2:
  assumes inv: "search_inv2 a0 s t st"
  shows "case relabel (st\<lparr>cur := (cur st)[node st := c]\<rparr>) of
           Inl res \<Rightarrow> result_ok2 a0 s t res
         | Inr st' \<Rightarrow> search_inv2 a0 s t st'"
proof -
  let ?g = "graph st" and ?ps = "path st" and ?cu = "cur st" and ?u = "node st"
  let ?st = "st\<lparr>cur := ?cu[?u := c]\<rparr>"
  let ?lu = "level ?g ! ?u" and ?ml = "min_level ?g ?u"
  let ?gp = "(gap ?g)[nat ?lu := gap ?g ! nat ?lu - 1]"
  let ?g' = "?g\<lparr>level := (level ?g)[?u := ?ml + 1], gap := ?gp[nat (?ml + 1) := ?gp ! nat (?ml + 1) + 1]\<rparr>"
  let ?st' = "?st\<lparr>graph := ?g', cur := (?cu[?u := c])[?u := 0], path := butlast ?ps,
                   node := (if ?ps = [] then ?u else last ?ps)\<rparr>"
  from inv have wf: "wf_graph ?g"
    and ex: "\<forall>v < n_nodes ?g. excess (adj ?g) v =
          excess a0 v + (if v = s then total st else 0) - (if v = t then total st else 0)"
    by (auto simp: search_inv2_def search_inv_def)
  have "result_ok2 a0 s t (Inr (total st, ?g\<lparr>gap := ?gp\<rparr>))"
    using ex by (simp add: result_ok2_def)
  have nxt: "search_inv2 a0 s t ?st'"
    using retreat_inv2[OF inv, where gp = "?gp[nat (?ml + 1) := ?gp ! nat (?ml + 1) + 1]"
        and l = "?ml + 1" and c = c] wf
    by (simp add: wf_graph_def)
  consider (lo) "?lu < 0 \<or> int (length (gap ?g)) \<le> ?lu"
    | (brk) "\<not> (?lu < 0 \<or> int (length (gap ?g)) \<le> ?lu)" "?gp ! nat ?lu = 0"
    | (hi) "\<not> (?lu < 0 \<or> int (length (gap ?g)) \<le> ?lu)" "?gp ! nat ?lu \<noteq> 0"
        "?ml + 1 < 0 \<or> int (length ?gp) \<le> ?ml + 1"
    | (go) "\<not> (?lu < 0 \<or> int (length (gap ?g)) \<le> ?lu)" "?gp ! nat ?lu \<noteq> 0"
        "\<not> (?ml + 1 < 0 \<or> int (length ?gp) \<le> ?ml + 1)"
    by blast
  then show ?thesis
  proof cases
    case lo
    then have "relabel ?st = Inl (Inl (GapOutOfBounds ?lu))" by (simp add: relabel_def Let_def)
    then show ?thesis by (simp add: result_ok2_def)
  next
    case brk
    then have "relabel ?st = Inl (Inr (total st, ?g\<lparr>gap := ?gp\<rparr>))"
      by (simp add: relabel_def Let_def)
    with \<open>result_ok2 a0 s t (Inr (total st, ?g\<lparr>gap := ?gp\<rparr>))\<close> show ?thesis by simp
  next
    case hi
    then have "relabel ?st = Inl (Inl (GapOutOfBounds (?ml + 1)))" by (simp add: relabel_def Let_def)
    then show ?thesis by (simp add: result_ok2_def)
  next
    case go
    then have "relabel ?st = Inr ?st'" by (simp add: relabel_def Let_def)
    with nxt show ?thesis by simp
  qed
qed

lemma isap_round_inv2:
  assumes inv: "search_inv2 a0 s t st"
  shows "case isap_round s t st of
           Inl res \<Rightarrow> result_ok2 a0 s t res
         | Inr st' \<Rightarrow> search_inv2 a0 s t st'"
proof (cases "level (graph st) ! s < int (n_nodes (graph st))")
  case False
  with inv show ?thesis by (simp add: isap_round_def result_ok2_def search_inv2_def)
next
  case True
  let ?st1 = "augment_at_sink s t st"
  let ?sc = "scan (level (graph ?st1)) (level (graph ?st1) ! node ?st1)
      (drop (cur ?st1 ! node ?st1) (adj (graph ?st1) ! node ?st1)) (cur ?st1 ! node ?st1)"
  have inv1: "search_inv2 a0 s t ?st1" by (rule augment_at_sink_inv2[OF inv])
  show ?thesis
  proof (cases "snd ?sc")
    case adv: True
    then have "?sc = (fst ?sc, True)" by (metis prod.collapse)
    from advance_inv2[OF inv1 this] True adv show ?thesis
      by (simp add: isap_round_def Let_def)
  next
    case False
    with relabel_inv2[OF inv1, of "fst ?sc"] True show ?thesis
      by (simp add: isap_round_def Let_def)
  qed
qed

lemma isap_loop_inv2:
  assumes run: "isap_loop s t st = Some res" and inv: "search_inv2 a0 s t st"
  shows "result_ok2 a0 s t res"
proof -
  have "search_inv2 a0 s t st \<longrightarrow> result_ok2 a0 s t res"
  proof (rule isap_loop.raw_induct[where P = "\<lambda>s t st res. search_inv2 a0 s t st \<longrightarrow> result_ok2 a0 s t res"
        and s = s and t = t and st = st and y = res], goal_cases)
    case (1 loop s' t' st' res')
    show ?case
    proof
      assume i: "search_inv2 a0 s' t' st'"
      show "result_ok2 a0 s' t' res'"
      proof (cases "isap_round s' t' st'")
        case (Inl r)
        with 1(2) isap_round_inv2[OF i] show ?thesis by simp
      next
        case (Inr st'')
        with 1(2) isap_round_inv2[OF i] 1(1)[of s' t' st'' res'] show ?thesis by simp
      qed
    qed
  next
    case 2
    show ?case by (rule run)
  qed
  with inv show ?thesis by simp
qed

lemma isap_excess:
  assumes wf: "wf_graph g" and ok: "flow_ok g" and s: "s < n_nodes g" and t: "t < n_nodes g"
    and run: "isap g s t = Some (Inr (fl, g'))" and v: "v < n_nodes g"
    and room: "s \<noteq> t \<longrightarrow> sum_list (map cap (adj g ! s)) - excess (adj g) s < 2147483648"
  shows "excess (adj g') v = excess (adj g) v + (if v = s then fl else 0) - (if v = t then fl else 0)"
proof -
  from bfs_ok[OF wf t] obtain lev gp where
    b: "bfs g t = Inr (g\<lparr>level := lev, gap := gp\<rparr>)" and inv: "bfs_inv g t lev gp []" by blast
  let ?g1 = "g\<lparr>level := lev, gap := gp\<rparr>"
  from inv have len: "length lev = n_nodes g" "length gp = n_nodes g" by (auto simp: bfs_inv_def)
  from wf len have wf1: "wf_graph ?g1" by (simp add: wf_graph_def)
  from ok have ok1: "flow_ok ?g1" by (simp add: flow_ok_def)
  from isap_good[OF wf ok s t run] wf have n': "n_nodes g' = n_nodes g"
    by (auto simp: wf_graph_def frame_def)
  show ?thesis
  proof (cases "lev ! s = - 1")
    case True
    with run b s len have "g' = ?g1" "fl = 0" by (simp_all add: isap_def)
    then show ?thesis by simp
  next
    case False
    let ?st = "\<lparr>graph = ?g1, cur = replicate (n_nodes ?g1) 0, path = [], node = s, total = 0\<rparr>"
    from False run b s len have "isap_loop s t ?st = Some (Inr (fl, g'))" by (simp add: isap_def)
    moreover have "search_inv2 (adj g) s t ?st"
      using wf1 ok1 s room by (simp add: search_inv2_def search_inv_def frame_refl)
    ultimately have "result_ok2 (adj g) s t (Inr (fl, g'))" by (rule isap_loop_inv2)
    with v n' show ?thesis by (simp add: result_ok2_def)
  qed
qed


lemma relabel_raw_inv2:
  assumes inv: "search_inv2 a0 s t st"
  shows "case relabel_raw (st\<lparr>cur := (cur st)[node st := c]\<rparr>) m of
           Inl res \<Rightarrow> result_ok2 a0 s t (Inr res)
         | Inr sm \<Rightarrow> search_inv2 a0 s t (fst sm)"
proof -
  let ?g = "graph st" and ?ps = "path st" and ?cu = "cur st" and ?u = "node st"
  let ?st = "st\<lparr>cur := ?cu[?u := c]\<rparr>"
  let ?lu = "level ?g ! ?u" and ?ml = "min_level ?g ?u"
  obtain gp m1 where s1: "gap_set (gap ?g) m ?lu (gap_get (gap ?g) m ?lu - 1) = (gp, m1)"
    by fastforce
  obtain gp2 m2 where s2: "gap_set gp m1 (?ml + 1) (gap_get gp m1 (?ml + 1) + 1) = (gp2, m2)"
    by fastforce
  from inv have wf: "wf_graph ?g"
    and ex: "\<forall>v < n_nodes ?g. excess (adj ?g) v =
          excess a0 v + (if v = s then total st else 0) - (if v = t then total st else 0)"
    by (auto simp: search_inv2_def search_inv_def)
  have l1: "length gp = n_nodes ?g" using gap_set_length[OF s1] wf by (simp add: wf_graph_def)
  have l2: "length gp2 = n_nodes ?g" using gap_set_length[OF s2] l1 by simp
  show ?thesis
  proof (cases "gap_get gp m1 ?lu = 0")
    case True
    then have "relabel_raw ?st m = Inl (total st, ?g\<lparr>gap := gp\<rparr>)"
      by (simp add: relabel_raw_def Let_def s1)
    moreover have "result_ok2 a0 s t (Inr (total st, ?g\<lparr>gap := gp\<rparr>))"
      using ex by (simp add: result_ok2_def)
    ultimately show ?thesis by simp
  next
    case False
    then have "relabel_raw ?st m =
      Inr (st\<lparr>graph := ?g\<lparr>level := (level ?g)[?u := ?ml + 1], gap := gp2\<rparr>,
              cur := (?cu[?u := c])[?u := 0], path := butlast ?ps,
              node := (if ?ps = [] then ?u else last ?ps)\<rparr>, m2)"
      by (simp add: relabel_raw_def Let_def s1 s2)
    with retreat_inv2[OF inv l2, where l = "?ml + 1" and c = c] show ?thesis by simp
  qed
qed

lemma isap_round_raw_inv2:
  assumes inv: "search_inv2 a0 s t st"
  shows "case isap_round_raw s t st m of
           Inl res \<Rightarrow> result_ok2 a0 s t (Inr res)
         | Inr sm \<Rightarrow> search_inv2 a0 s t (fst sm)"
proof (cases "level (graph st) ! s < int (n_nodes (graph st))")
  case False
  with inv show ?thesis by (simp add: isap_round_raw_def result_ok2_def search_inv2_def)
next
  case True
  let ?st1 = "augment_at_sink s t st"
  let ?sc = "scan (level (graph ?st1)) (level (graph ?st1) ! node ?st1)
      (drop (cur ?st1 ! node ?st1) (adj (graph ?st1) ! node ?st1)) (cur ?st1 ! node ?st1)"
  have inv1: "search_inv2 a0 s t ?st1" by (rule augment_at_sink_inv2[OF inv])
  show ?thesis
  proof (cases "snd ?sc")
    case adv: True
    then have "?sc = (fst ?sc, True)" by (metis prod.collapse)
    from advance_inv2[OF inv1 this] True adv show ?thesis
      by (simp add: isap_round_raw_def Let_def)
  next
    case False
    with relabel_raw_inv2[OF inv1, of "fst ?sc" m] True show ?thesis
      by (simp add: isap_round_raw_def Let_def)
  qed
qed

lemma isap_loop_raw_inv2:
  assumes run: "isap_loop_raw s t st m = Some res" and inv: "search_inv2 a0 s t st"
  shows "result_ok2 a0 s t (Inr res)"
proof -
  have "search_inv2 a0 s t st \<longrightarrow> result_ok2 a0 s t (Inr res)"
  proof (rule isap_loop_raw.raw_induct[where P = "\<lambda>s t st m res. search_inv2 a0 s t st \<longrightarrow> result_ok2 a0 s t (Inr res)"
        and s = s and t = t and st = st and m = m and y = res], goal_cases)
    case (1 loop s' t' st' m' res')
    show ?case
    proof
      assume i: "search_inv2 a0 s' t' st'"
      show "result_ok2 a0 s' t' (Inr res')"
      proof (cases "isap_round_raw s' t' st' m'")
        case (Inl r)
        with 1(2) isap_round_raw_inv2[OF i, of m'] show ?thesis by simp
      next
        case (Inr sm)
        obtain st'' m'' where sm: "sm = (st'', m'')" by (cases sm) auto
        with Inr 1(2) isap_round_raw_inv2[OF i, of m'] 1(1)[of s' t' st'' m'' res'] show ?thesis by simp
      qed
    qed
  next
    case 2
    show ?case by (rule run)
  qed
  with inv show ?thesis by simp
qed

lemma isap_raw_excess:
  assumes wf: "wf_graph g" and ok: "flow_ok g" and s: "s < n_nodes g" and t: "t < n_nodes g"
    and run: "isap_raw m g s t = Some (Inr (fl, g'))" and v: "v < n_nodes g"
    and room: "s \<noteq> t \<longrightarrow> sum_list (map cap (adj g ! s)) - excess (adj g) s < 2147483648"
  shows "excess (adj g') v = excess (adj g) v + (if v = s then fl else 0) - (if v = t then fl else 0)"
proof -
  from bfs_ok[OF wf t] obtain lev gp where
    b: "bfs g t = Inr (g\<lparr>level := lev, gap := gp\<rparr>)" and inv: "bfs_inv g t lev gp []" by blast
  let ?g1 = "g\<lparr>level := lev, gap := gp\<rparr>"
  from inv have len: "length lev = n_nodes g" "length gp = n_nodes g" by (auto simp: bfs_inv_def)
  from wf len have wf1: "wf_graph ?g1" by (simp add: wf_graph_def)
  from ok have ok1: "flow_ok ?g1" by (simp add: flow_ok_def)
  from isap_raw_good[OF wf ok s t run] wf have n': "n_nodes g' = n_nodes g"
    by (auto simp: wf_graph_def frame_def)
  show ?thesis
  proof (cases "lev ! s = - 1")
    case True
    with run b s len have "g' = ?g1" "fl = 0" by (simp_all add: isap_raw_def)
    then show ?thesis by simp
  next
    case False
    let ?st = "\<lparr>graph = ?g1, cur = replicate (n_nodes ?g1) 0, path = [], node = s, total = 0\<rparr>"
    from False run b s len have "isap_loop_raw s t ?st m = Some (fl, g')" by (auto simp: isap_raw_def)
    moreover have "search_inv2 (adj g) s t ?st"
      using wf1 ok1 s room by (simp add: search_inv2_def search_inv_def frame_refl)
    ultimately have "result_ok2 (adj g) s t (Inr (fl, g'))" by (rule isap_loop_raw_inv2)
    with v n' show ?thesis by (simp add: result_ok2_def)
  qed
qed

text \<open>
  The edges and their flows, read through the positions that \<open>built\<close> records: the end
  points of each \<^verbatim>\<open>add_edge\<close> call and the flow of its forward record.
\<close>

definition pair_ends :: "((nat \<times> nat) \<times> (nat \<times> nat)) list \<Rightarrow> (nat \<times> nat) list" where
  "pair_ends ps = map (\<lambda>((u, i), (w, j)). (u, w)) ps"

definition pair_flows :: "Edge list list \<Rightarrow> ((nat \<times> nat) \<times> (nat \<times> nat)) list \<Rightarrow> int list" where
  "pair_flows a ps = map (\<lambda>((u, i), (w, j)). flow (a ! u ! i)) ps"

lemma net_out_snoc:
  "length xs = length ys \<Longrightarrow>
   net_out (xs @ [e]) (ys @ [y]) v = net_out xs ys v + ((if fst e = v then y else 0) - (if snd e = v then y else 0))"
  by (simp add: net_out_def)

text \<open>An adjacency structure cut back to the vector lengths of an earlier one.\<close>

definition trunc :: "Edge list list \<Rightarrow> Edge list list \<Rightarrow> Edge list list" where
  "trunc a0 a = map (\<lambda>(l0, l). take (length l0) l) (zip a0 a)"

lemma excess_pairs:
  assumes "built g ps"
  shows "frame (adj g) a2 \<Longrightarrow> flow_ok (g\<lparr>adj := a2\<rparr>) \<Longrightarrow> v < n_nodes g \<Longrightarrow>
     excess a2 v = net_out (pair_ends ps) (pair_flows a2 ps) v"
  using assms
proof (induction arbitrary: a2 rule: built.induct)
  case (built_new k)
  then have "a2 ! v = []" by (simp add: frame_def Isap_new_def)
  then show ?case by (simp add: excess_def pair_ends_def pair_flows_def net_out_def)
next
  case (built_run g ps s t fl g')
  from built_good[OF built_run.hyps(1)] have wf: "wf_graph g" and ok: "flow_ok g" by auto
  from isap_good[OF wf ok built_run.hyps(2,3,4)]
  have g': "wf_graph g'" "frame (adj g) (adj g')" by auto
  with wf have n': "n_nodes g' = n_nodes g" by (auto simp: wf_graph_def frame_def)
  from g'(2) built_run.prems(1) have fr: "frame (adj g) a2" by (rule frame_trans)
  from built_run.prems(2) n' have ok2: "flow_ok (g\<lparr>adj := a2\<rparr>)" by (simp add: flow_ok_def)
  from built_run.IH[OF fr ok2] built_run.prems(3) n' show ?case by simp
next
  case (built_run_raw g ps s t m fl g')
  from built_good[OF built_run_raw.hyps(1)] have wf: "wf_graph g" and ok: "flow_ok g" by auto
  from isap_raw_good[OF wf ok built_run_raw.hyps(2,3,4)]
  have g': "wf_graph g'" "frame (adj g) (adj g')" by auto
  with wf have n': "n_nodes g' = n_nodes g" by (auto simp: wf_graph_def frame_def)
  from g'(2) built_run_raw.prems(1) have fr: "frame (adj g) a2" by (rule frame_trans)
  from built_run_raw.prems(2) n' have ok2: "flow_ok (g\<lparr>adj := a2\<rparr>)" by (simp add: flow_ok_def)
  from built_run_raw.IH[OF fr ok2] built_run_raw.prems(3) n' show ?case by simp
next
  case (built_add g ps u w c)
  let ?n = "n_nodes g" and ?a = "adj g" and ?g' = "add_edge g u w c"
  let ?ku = "length (?a ! u)" and ?kw = "length (?a ! w) + (if u = w then 1 else 0)"
  from built_good[OF built_add.hyps(1)] have wf: "wf_graph g" and pk: "pairs_ok g ps" by auto
  from wf have len: "length ?a = ?n" by (simp add: wf_graph_def)
  note ae = add_edge_adj[OF len built_add.hyps(2,3), where c = c]
  have n': "n_nodes ?g' = ?n" by (simp add: add_edge_def Let_def)
  from built_add.prems(1) ae(1) have len2: "length a2 = ?n" by (simp add: frame_def)
  have fr2: "length (a2 ! x) = length (adj ?g' ! x)"
    "i < length (adj ?g' ! x) \<Longrightarrow> to (a2 ! x ! i) = to (adj ?g' ! x ! i)"
    "i < length (adj ?g' ! x) \<Longrightarrow> rev_idx (a2 ! x ! i) = rev_idx (adj ?g' ! x ! i)"
    "i < length (adj ?g' ! x) \<Longrightarrow> cap (a2 ! x ! i) = cap (adj ?g' ! x ! i)"
    if "x < ?n" for x i
    using built_add.prems(1) that ae(1) by (auto simp: frame_def)
  define a2' where "a2' = trunc ?a a2"
  have t_row: "a2' ! x = take (length (?a ! x)) (a2 ! x)" if "x < ?n" for x
    using that len len2 by (simp add: a2'_def trunc_def)
  have t_len: "length (a2' ! x) = length (?a ! x)" if "x < ?n" for x
    using that fr2(1)[OF that] ae(2)[OF that] by (simp add: t_row)
  have t_nth: "a2' ! x ! i = a2 ! x ! i" if "x < ?n" "i < length (?a ! x)" for x i
    using that by (simp add: t_row)
  have old_fields: "to (a2 ! x ! i) = to (?a ! x ! i)" "rev_idx (a2 ! x ! i) = rev_idx (?a ! x ! i)"
    "cap (a2 ! x ! i) = cap (?a ! x ! i)"
    if "x < ?n" "i < length (?a ! x)" for x i
    using that fr2(2,3,4)[OF that(1), of i] ae(2)[OF that(1)] ae(3)[OF that] by auto
  have fr': "frame ?a a2'"
    unfolding frame_def using len len2 t_len t_nth old_fields
    by (auto simp: a2'_def trunc_def)
  have ok2: "flow (a2 ! x ! i) \<le> cap (a2 ! x ! i) \<and>
        (to (a2 ! x ! i) \<noteq> x \<longrightarrow> flow (mate a2 x i) = - flow (a2 ! x ! i)) \<and>
        (to (a2 ! x ! i) = x \<longrightarrow> flow (a2 ! x ! i) = 0)"
    if "x < ?n" "i < length (a2 ! x)" for x i
    using built_add.prems(2) that n' by (simp add: flow_ok_def)
  have ok_pt: "flow (a2' ! x ! i) \<le> cap (a2' ! x ! i) \<and>
        (to (a2' ! x ! i) \<noteq> x \<longrightarrow> flow (mate a2' x i) = - flow (a2' ! x ! i)) \<and>
        (to (a2' ! x ! i) = x \<longrightarrow> flow (a2' ! x ! i) = 0)"
    if x: "x < ?n" and i: "i < length (a2' ! x)" for x i
  proof -
    from x i t_len have i0: "i < length (?a ! x)" by simp
    with x fr2(1)[OF x] ae(2)[OF x] have i2: "i < length (a2 ! x)" by simp
    from wf x i0 have w: "to (?a ! x ! i) < ?n" "rev_idx (?a ! x ! i) < length (?a ! to (?a ! x ! i))"
      by (auto simp: wf_graph_def)
    have "mate a2' x i = a2' ! to (?a ! x ! i) ! rev_idx (?a ! x ! i)"
      by (simp add: mate_def t_nth[OF x i0] old_fields[OF x i0])
    also have "\<dots> = a2 ! to (?a ! x ! i) ! rev_idx (?a ! x ! i)" by (rule t_nth[OF w])
    also have "\<dots> = mate a2 x i" by (simp add: mate_def old_fields[OF x i0])
    finally have "mate a2' x i = mate a2 x i" .
    with ok2[OF x i2] t_nth[OF x i0] show ?thesis by simp
  qed
  have ok': "flow_ok (g\<lparr>adj := a2'\<rparr>)"
    unfolding flow_ok_def by (simp add: ok_pt)
  from built_add.prems(3) n' have v: "v < ?n" by simp
  have IH: "excess a2' v = net_out (pair_ends ps) (pair_flows a2' ps) v"
    by (rule built_add.IH[OF fr' ok' v])
  have pf: "pair_flows a2' ps = pair_flows a2 ps"
    unfolding pair_flows_def
  proof (rule map_cong[OF refl], clarify)
    fix x i y j assume "((x, i), (y, j)) \<in> set ps"
    with pk have "x < ?n" "i < length (?a ! x)" by (auto simp: pairs_ok_def)
    then show "flow (a2' ! x ! i) = flow (a2 ! x ! i)" by (simp add: t_nth)
  qed
  let ?fw = "flow (a2 ! u ! ?ku)"
  have u: "u < ?n" and w: "w < ?n" using built_add.hyps by auto
  have lu: "length (a2 ! u) = ?ku + 1 + (if u = w then 1 else 0)"
    using fr2(1)[OF u] ae(2)[OF u] by simp
  have lw: "length (a2 ! w) = length (?a ! w) + 1 + (if u = w then 1 else 0)"
    using fr2(1)[OF w] ae(2)[OF w] by auto
  have fw_rec: "to (a2 ! u ! ?ku) = w" "rev_idx (a2 ! u ! ?ku) = length (?a ! w)"
    using fr2(2,3)[OF u, of ?ku] ae(2)[OF u] ae(4) by auto
  have rv_rec: "to (a2 ! w ! ?kw) = u"
    using fr2(2)[OF w, of ?kw] ae(2)[OF w] ae(5) by auto
  have split: "excess a2 v = excess a2' v + sum_list (map flow (drop (length (?a ! v)) (a2 ! v)))"
  proof -
    have "a2 ! v = take (length (?a ! v)) (a2 ! v) @ drop (length (?a ! v)) (a2 ! v)" by simp
    then have "sum_list (map flow (a2 ! v)) =
        sum_list (map flow (take (length (?a ! v)) (a2 ! v))) + sum_list (map flow (drop (length (?a ! v)) (a2 ! v)))"
      by (metis map_append sum_list_append)
    then show ?thesis by (simp add: excess_def t_row[OF v])
  qed
  have new: "sum_list (map flow (drop (length (?a ! v)) (a2 ! v)))
      = (if u = v then ?fw else 0) - (if w = v then ?fw else 0)"
  proof (cases "u = w")
    case True
    from ok2[OF u, of ?ku] lu fw_rec True have f1: "?fw = 0" by simp
    from ok2[OF u, of "Suc ?ku"] lu rv_rec True have f2: "flow (a2 ! u ! Suc ?ku) = 0" by simp
    show ?thesis
    proof (cases "v = u")
      case vu: True
      from lu True have "drop ?ku (a2 ! u) = [a2 ! u ! ?ku, a2 ! u ! Suc ?ku]"
        by (simp add: Cons_nth_drop_Suc[symmetric])
      with vu f1 f2 True show ?thesis by simp
    next
      case False
      with fr2(1)[OF v] ae(2)[OF v] True show ?thesis by simp
    qed
  next
    case False
    from ok2[OF u, of ?ku] lu fw_rec False have "flow (mate a2 u ?ku) = - ?fw" by simp
    with fw_rec have m: "flow (a2 ! w ! length (?a ! w)) = - ?fw" by (simp add: mate_def)
    consider "v = u" | "v = w" | "v \<noteq> u" "v \<noteq> w" by blast
    then show ?thesis
    proof cases
      case 1
      from lu False have "drop ?ku (a2 ! u) = [a2 ! u ! ?ku]"
        by (simp add: Cons_nth_drop_Suc[symmetric])
      with 1 False show ?thesis by auto
    next
      case 2
      from lw False have "drop (length (?a ! w)) (a2 ! w) = [a2 ! w ! length (?a ! w)]"
        by (simp add: Cons_nth_drop_Suc[symmetric])
      with 2 False m show ?thesis by auto
    next
      case 3
      with fr2(1)[OF v] ae(2)[OF v] show ?thesis by simp
    qed
  qed
  have "net_out (pair_ends (ps @ [((u, ?ku), (w, ?kw))])) (pair_flows a2 (ps @ [((u, ?ku), (w, ?kw))])) v
      = net_out (pair_ends ps) (pair_flows a2 ps) v + ((if u = v then ?fw else 0) - (if w = v then ?fw else 0))"
    by (simp add: pair_ends_def pair_flows_def net_out_snoc)
  with split new IH pf show ?case by simp
qed


text \<open>A sequence of \<^verbatim>\<open>add_edge\<close> calls on a graph.\<close>

definition add_edges :: "(nat \<times> nat \<times> int) list \<Rightarrow> Isap \<Rightarrow> Isap" where
  "add_edges es g = fold (\<lambda>(u, v, c) g. add_edge g u v c) es g"

lemma add_edges_simps:
  "add_edges [] g = g"
  "add_edges ((u, v, c) # es) g = add_edges es (add_edge g u v c)"
  "add_edges (es @ es') g = add_edges es' (add_edges es g)"
  by (simp_all add: add_edges_def)

lemma build_add_edges: "build k es = add_edges es (Isap_new k)"
  by (simp add: build_def add_edges_def)

text \<open>The precondition of \<^verbatim>\<open>add_edge\<close> for every triple: nodes below \<open>k\<close>, capacity not negative.\<close>

definition valid_edges :: "nat \<Rightarrow> (nat \<times> nat \<times> int) list \<Rightarrow> bool" where
  "valid_edges k es = list_all (\<lambda>(u, v, c). u < k \<and> v < k \<and> 0 \<le> c) es"

lemma add_edges_keep:
  assumes "wf_graph g" "valid_edges (n_nodes g) es"
  shows "wf_graph (add_edges es g) \<and> n_nodes (add_edges es g) = n_nodes g \<and>
     (\<forall>x < n_nodes g. length (adj g ! x) \<le> length (adj (add_edges es g) ! x) \<and>
        (\<forall>i < length (adj g ! x). adj (add_edges es g) ! x ! i = adj g ! x ! i))"
  using assms
proof (induction es arbitrary: g)
  case Nil
  then show ?case by (simp add: add_edges_simps)
next
  case (Cons e es)
  obtain u v c where e: "e = (u, v, c)" by (cases e) auto
  let ?g1 = "add_edge g u v c"
  from Cons.prems e have uv: "u < n_nodes g" "v < n_nodes g" by (auto simp: valid_edges_def)
  from Cons.prems(1) have len: "length (adj g) = n_nodes g" by (simp add: wf_graph_def)
  note ae = add_edge_adj[OF len uv, where c = c]
  have n1: "n_nodes ?g1 = n_nodes g" by (simp add: add_edge_def Let_def)
  have wf1: "wf_graph ?g1" by (rule wf_graph_add_edge[OF Cons.prems(1) uv])
  from Cons.prems(2) e n1 have v1: "valid_edges (n_nodes ?g1) es" by (simp add: valid_edges_def)
  from Cons.IH[OF wf1 v1] have IH: "wf_graph (add_edges es ?g1)" "n_nodes (add_edges es ?g1) = n_nodes g"
    "\<And>x. x < n_nodes g \<Longrightarrow> length (adj ?g1 ! x) \<le> length (adj (add_edges es ?g1) ! x)"
    "\<And>x i. x < n_nodes g \<Longrightarrow> i < length (adj ?g1 ! x) \<Longrightarrow> adj (add_edges es ?g1) ! x ! i = adj ?g1 ! x ! i"
    using n1 by auto
  have "length (adj g ! x) \<le> length (adj (add_edges es ?g1) ! x) \<and>
        (\<forall>i < length (adj g ! x). adj (add_edges es ?g1) ! x ! i = adj g ! x ! i)"
    if x: "x < n_nodes g" for x
  proof -
    from ae(2)[OF x] have l: "length (adj g ! x) \<le> length (adj ?g1 ! x)" by simp
    with IH(3)[OF x] have "length (adj g ! x) \<le> length (adj (add_edges es ?g1) ! x)" by simp
    moreover have "adj (add_edges es ?g1) ! x ! i = adj g ! x ! i" if i: "i < length (adj g ! x)" for i
      using IH(4)[OF x, of i] ae(3)[OF x i] l i by simp
    ultimately show ?thesis by simp
  qed
  with IH(1,2) show ?case by (simp add: e add_edges_simps)
qed

lemma built_add_edges:
  assumes "built g ps" "valid_edges (n_nodes g) es"
  shows "\<exists>ps'. built (add_edges es g) (ps @ ps') \<and>
     list_all2 (\<lambda>((u, i), (w, j)) (u', v', c). u = u' \<and> w = v' \<and> cap (adj (add_edges es g) ! u ! i) = c) ps' es"
  using assms
proof (induction es arbitrary: g ps)
  case Nil
  then show ?case by (simp add: add_edges_simps)
next
  case (Cons e es)
  obtain u v c where e: "e = (u, v, c)" by (cases e) auto
  let ?g1 = "add_edge g u v c"
  let ?pr = "((u, length (adj g ! u)), (v, length (adj g ! v) + (if u = v then 1 else 0)))"
  from Cons.prems e have uv: "u < n_nodes g" "v < n_nodes g" "0 \<le> c" by (auto simp: valid_edges_def)
  from built_good[OF Cons.prems(1)] have wf: "wf_graph g" by simp
  then have len: "length (adj g) = n_nodes g" by (simp add: wf_graph_def)
  note ae = add_edge_adj[OF len uv(1,2), where c = c]
  have n1: "n_nodes ?g1 = n_nodes g" by (simp add: add_edge_def Let_def)
  have wf1: "wf_graph ?g1" by (rule wf_graph_add_edge[OF wf uv(1,2)])
  have b1: "built ?g1 (ps @ [?pr])" by (rule built_add[OF Cons.prems(1) uv])
  from Cons.prems(2) e n1 have v1: "valid_edges (n_nodes ?g1) es" by (simp add: valid_edges_def)
  from Cons.IH[OF b1 v1] obtain ps' where
    ps': "built (add_edges es ?g1) ((ps @ [?pr]) @ ps')"
      "list_all2 (\<lambda>((u, i), (w, j)) (u', v', c). u = u' \<and> w = v' \<and> cap (adj (add_edges es ?g1) ! u ! i) = c) ps' es"
    by blast
  from add_edges_keep[OF wf1 v1] n1 uv(1) ae(2)[OF uv(1)]
  have "adj (add_edges es ?g1) ! u ! length (adj g ! u) = adj ?g1 ! u ! length (adj g ! u)" by simp
  with ae(4) have "cap (adj (add_edges es ?g1) ! u ! length (adj g ! u)) = c" by simp
  with ps' show ?case
    by (intro exI[of _ "?pr # ps'"]) (simp add: e add_edges_simps)
qed

text \<open>A graph on which no flow has been pushed.\<close>

definition zero_flows :: "Isap \<Rightarrow> bool" where
  "zero_flows g \<longleftrightarrow> (\<forall>x < n_nodes g. \<forall>i < length (adj g ! x). flow (adj g ! x ! i) = 0)"

lemma zero_flows_add_edge:
  assumes len: "length (adj g) = n_nodes g" and u: "u < n_nodes g" and v: "v < n_nodes g"
    and z: "zero_flows g"
  shows "zero_flows (add_edge g u v c)"
proof -
  let ?a = "adj g" and ?g' = "add_edge g u v c"
  note ae = add_edge_adj[OF len u v, where c = c]
  have n': "n_nodes ?g' = n_nodes g" by (simp add: add_edge_def Let_def)
  have "flow (adj ?g' ! x ! i) = 0" if x: "x < n_nodes g" and i: "i < length (adj ?g' ! x)" for x i
  proof (cases "i < length (?a ! x)")
    case True
    with z x ae(3)[OF x True] show ?thesis by (simp add: zero_flows_def)
  next
    case False
    with i ae(2)[OF x]
    have "(x = u \<and> i = length (?a ! u)) \<or> (x = v \<and> i = length (?a ! v) + (if u = v then 1 else 0))"
      by (cases "x = u"; cases "x = v") (auto simp: less_Suc_eq)
    with ae(4) ae(5) show ?thesis by auto
  qed
  then show ?thesis by (simp add: zero_flows_def n')
qed

lemma zero_flows_add_edges:
  assumes "wf_graph g" "valid_edges (n_nodes g) es" "zero_flows g"
  shows "zero_flows (add_edges es g)"
  using assms
proof (induction es arbitrary: g)
  case Nil
  then show ?case by (simp add: add_edges_simps)
next
  case (Cons e es)
  obtain u v c where e: "e = (u, v, c)" by (cases e) auto
  let ?g1 = "add_edge g u v c"
  from Cons.prems e have uv: "u < n_nodes g" "v < n_nodes g" by (auto simp: valid_edges_def)
  from Cons.prems(1) have len: "length (adj g) = n_nodes g" by (simp add: wf_graph_def)
  have n1: "n_nodes ?g1 = n_nodes g" by (simp add: add_edge_def Let_def)
  have wf1: "wf_graph ?g1" by (rule wf_graph_add_edge[OF Cons.prems(1) uv])
  from Cons.prems(2) e n1 have v1: "valid_edges (n_nodes ?g1) es" by (simp add: valid_edges_def)
  have z1: "zero_flows ?g1" by (rule zero_flows_add_edge[OF len uv Cons.prems(3)])
  from Cons.IH[OF wf1 v1 z1] show ?case by (simp add: e add_edges_simps)
qed

lemma zero_flows_excess:
  assumes "zero_flows g" "v < n_nodes g"
  shows "excess (adj g) v = 0"
proof -
  have "\<forall>e \<in> set (adj g ! v). flow e = 0"
    using assms by (auto simp: zero_flows_def in_set_conv_nth)
  then have "map flow (adj g ! v) = replicate (length (adj g ! v)) 0"
    by (simp add: map_replicate_const[symmetric] cong: map_cong)
  then show ?thesis by (simp add: excess_def sum_list_replicate)
qed

text \<open>The capacities of the records at a node sum to the capacities of the edges leaving it.\<close>

lemma add_edge_caps:
  assumes "length (adj g) = n_nodes g" "u < n_nodes g" "v < n_nodes g" "x < n_nodes g"
  shows "sum_list (map cap (adj (add_edge g u v c) ! x))
     = sum_list (map cap (adj g ! x)) + (if u = x then c else 0)"
  using assms by (auto simp: add_edge_def Let_def nth_list_update)

lemma add_edges_caps:
  assumes "wf_graph g" "valid_edges (n_nodes g) es" "x < n_nodes g"
  shows "sum_list (map cap (adj (add_edges es g) ! x))
     = sum_list (map cap (adj g ! x)) + (\<Sum>(u, v, c)\<leftarrow>es. if u = x then c else 0)"
  using assms
proof (induction es arbitrary: g)
  case Nil
  then show ?case by (simp add: add_edges_simps)
next
  case (Cons e es)
  obtain u v c where e: "e = (u, v, c)" by (cases e) auto
  let ?g1 = "add_edge g u v c"
  from Cons.prems e have uv: "u < n_nodes g" "v < n_nodes g" by (auto simp: valid_edges_def)
  from Cons.prems(1) have len: "length (adj g) = n_nodes g" by (simp add: wf_graph_def)
  have n1: "n_nodes ?g1 = n_nodes g" by (simp add: add_edge_def Let_def)
  have wf1: "wf_graph ?g1" by (rule wf_graph_add_edge[OF Cons.prems(1) uv])
  from Cons.prems(2) e n1 have v1: "valid_edges (n_nodes ?g1) es" by (simp add: valid_edges_def)
  from Cons.prems(3) n1 have x1: "x < n_nodes ?g1" by simp
  from Cons.IH[OF wf1 v1 x1] add_edge_caps[OF len uv Cons.prems(3), of c]
  show ?case by (simp add: e add_edges_simps)
qed

lemma isap_flow_lemma:
  assumes ve: "valid_edges k es" and s: "s < k" and t: "t < k"
    and run: "isap (build k es) s t = Some (Inr (fl, g')) \<or>
              isap_raw m (build k es) s t = Some (Inr (fl, g'))"
    and room: "s \<noteq> t \<longrightarrow> (\<Sum>(u, v, c)\<leftarrow>es. if u = s then c else 0) < 2147483648"
  shows "\<exists>F. is_flow k es s t F \<and>
     (\<forall>v < k. net_out (map (\<lambda>(u, v, c). (u, v)) es) F v
        = (if v = s then fl else 0) - (if v = t then fl else 0))"
proof -
  let ?g = "build k es"
  have n0: "n_nodes (Isap_new k) = k" by (simp add: Isap_new_def)
  from ve n0 have ve0: "valid_edges (n_nodes (Isap_new k)) es" by simp
  from built_add_edges[OF built_new ve0] obtain ps where
    b: "built ?g ps" and al: "list_all2 (\<lambda>((u, i), (w, j)) (u', v', c). u = u' \<and> w = v' \<and> cap (adj ?g ! u ! i) = c) ps es"
    by (auto simp: build_add_edges)
  from add_edges_keep[OF wf_graph_Isap_new ve0] have n: "n_nodes ?g = k"
    by (simp add: build_add_edges n0)
  have z: "zero_flows ?g"
    unfolding build_add_edges
    by (rule zero_flows_add_edges[OF wf_graph_Isap_new ve0]) (simp add: zero_flows_def Isap_new_def)
  from built_good[OF b] have wf: "wf_graph ?g" and ok: "flow_ok ?g" and pk: "pairs_ok ?g ps" by auto
  from s t n have s': "s < n_nodes ?g" and t': "t < n_nodes ?g" by simp_all
  from add_edges_caps[OF wf_graph_Isap_new ve0, of s] s
  have "sum_list (map cap (adj ?g ! s)) = (\<Sum>(u, v, c)\<leftarrow>es. if u = s then c else 0)"
    by (simp add: build_add_edges Isap_new_def)
  with room zero_flows_excess[OF z s']
  have room': "s \<noteq> t \<longrightarrow> sum_list (map cap (adj ?g ! s)) - excess (adj ?g) s < 2147483648"
    by simp
  from run isap_good[OF wf ok s' t'] isap_raw_good[OF wf ok s' t']
  have g': "wf_graph g'" "flow_ok g'" "frame (adj ?g) (adj g')"
    by blast+
  with wf have n': "n_nodes g' = k" using n by (auto simp: wf_graph_def frame_def)
  from run built_run[OF b s' t'] built_run_raw[OF b s' t'] have b': "built g' ps" by blast
  let ?F = "pair_flows (adj g') ps"
  have ends: "pair_ends ps = map (\<lambda>(u, v, c). (u, v)) es"
    using al unfolding pair_ends_def
    by (induction ps es rule: list_all2_induct) auto
  have ex: "net_out (map (\<lambda>(u, v, c). (u, v)) es) ?F v = (if v = s then fl else 0) - (if v = t then fl else 0)"
    if v: "v < k" for v
  proof -
    from v n have v': "v < n_nodes ?g" by simp
    from v n' have v'': "v < n_nodes g'" by simp
    have "excess (adj g') v = net_out (pair_ends ps) ?F v"
      by (rule excess_pairs[OF b' frame_refl _ v'']) (use g'(2) in simp)
    moreover have "excess (adj g') v = excess (adj ?g) v + (if v = s then fl else 0) - (if v = t then fl else 0)"
      using run isap_excess[OF wf ok s' t' _ v' room'] isap_raw_excess[OF wf ok s' t' _ v' room']
      by blast
    ultimately show ?thesis using zero_flows_excess[OF z v'] ends by simp
  qed
  have bounds: "list_all2 (\<lambda>(u, v, c) y. 0 \<le> y \<and> y \<le> c) es ?F"
    unfolding list_all2_conv_all_nth
  proof (intro conjI allI impI)
    from al show "length es = length ?F" by (simp add: pair_flows_def list_all2_lengthD)
  next
    fix m assume m: "m < length es"
    with al have m': "m < length ps" by (simp add: list_all2_lengthD)
    obtain u i w j where pm: "ps ! m = ((u, i), (w, j))" by (metis surj_pair)
    obtain u' v' c where em: "es ! m = (u', v', c)" by (metis surj_pair)
    from list_all2_nthD[OF al m'] pm em have c: "cap (adj ?g ! u ! i) = c" by auto
    from m' pm have mem: "((u, i), (w, j)) \<in> set ps" by (metis nth_mem)
    from built_pair_flows[OF b' mem]
    have f: "0 \<le> flow (adj g' ! u ! i)" "flow (adj g' ! u ! i) \<le> cap (adj g' ! u ! i)" by auto
    from pk mem have "u < n_nodes ?g" "i < length (adj ?g ! u)"
      by (auto simp: pairs_ok_def)
    with g'(3) wf have "cap (adj g' ! u ! i) = cap (adj ?g ! u ! i)"
      by (auto simp: frame_def wf_graph_def)
    with f c m' pm em show "(case es ! m of (u, v, c) \<Rightarrow> \<lambda>y. 0 \<le> y \<and> y \<le> c) (?F ! m)"
      by (simp add: pair_flows_def)
  qed
  from ex bounds have "is_flow k es s t ?F"
    unfolding is_flow_def by (auto simp: list_all_iff)
  with ex show ?thesis by blast
qed

section \<open>The auxiliary graph of the feasibility check\<close>

text \<open>
  The \<^verbatim>\<open>add_edge\<close> calls of \<^verbatim>\<open>has_feasible_flow\<close> as one list of triples: the slack
  edges, the edges from the supersource and to the supersink, and the edge from the sink
  back to the source.
\<close>

definition slack_list :: "OriginalEdge list \<Rightarrow> (nat \<times> nat \<times> int) list" where
  "slack_list edges =
     map (\<lambda>e. (e_u e, e_v e, upper e - lower e)) (filter (\<lambda>e. upper e - lower e > 0) edges)"

definition demand_list :: "nat \<Rightarrow> int list \<Rightarrow> nat list \<Rightarrow> (nat \<times> nat \<times> int) list" where
  "demand_list k d ns =
     concat (map (\<lambda>i. if d ! i > 0 then [(k, i, d ! i)]
                        else if d ! i < 0 then [(i, k + 1, - (d ! i))] else []) ns)"

text \<open>\<^verbatim>\<open>total_positive_demand\<close>\<close>

definition pos_total :: "int list \<Rightarrow> nat list \<Rightarrow> int" where
  "pos_total d ns = sum_list (map (\<lambda>i. if d ! i > 0 then d ! i else 0) ns)"

definition aux_edges :: "nat \<Rightarrow> nat \<Rightarrow> nat \<Rightarrow> OriginalEdge list \<Rightarrow> (nat \<times> nat \<times> int) list" where
  "aux_edges k s t edges =
     slack_list edges @ demand_list k (demands k edges) [0..<k] @ [(t, s, INF_cap)]"

text \<open>
  Bounds for which the 32-bit arithmetic of the check does not wrap: no lower bound is
  negative, every upper bound is an \<^verbatim>\<open>int\<close>, and the lower bounds sum to less than
  \<open>2\<^sup>3\<^sup>1\<close>.
\<close>

definition small_bounds :: "OriginalEdge list \<Rightarrow> bool" where
  "small_bounds edges \<longleftrightarrow>
     list_all (\<lambda>e. 0 \<le> lower e \<and> upper e < 2147483648) edges \<and>
     sum_list (map lower edges) < 2147483648"

lemma slack_edges_eq:
  assumes "\<forall>e \<in> set edges. - 2147483648 \<le> upper e - lower e \<and> upper e - lower e < 2147483648"
  shows "slack_edges edges g = add_edges (slack_list edges) g"
proof -
  have "fold (\<lambda>e g. if wrap32 (upper e - lower e) > 0
                then add_edge g (e_u e) (e_v e) (wrap32 (upper e - lower e)) else g) edges g
      = add_edges (slack_list edges) g" for g
    using assms
    by (induction edges arbitrary: g) (simp_all add: slack_list_def add_edges_simps wrap32_id)
  then show ?thesis by (simp add: slack_edges_def)
qed

lemma pos_total_nonneg: "0 \<le> pos_total d ns"
  by (auto simp: pos_total_def intro!: sum_list_nonneg)

lemma demand_step_eq:
  assumes "0 \<le> tot" "tot + pos_total d ns < 2147483648" "\<forall>i \<in> set ns. - 2147483648 < d ! i"
  shows "fold (\<lambda>i (g, tot).
             if d ! i > 0 then (add_edge g k i (d ! i), wrap32 (tot + d ! i))
             else if d ! i < 0 then (add_edge g i (k + 1) (wrap32 (- (d ! i))), tot)
             else (g, tot)) ns (g, tot)
   = (add_edges (demand_list k d ns) g, tot + pos_total d ns)"
  using assms
proof (induction ns arbitrary: g tot)
  case Nil
  then show ?case by (simp add: demand_list_def pos_total_def add_edges_simps)
next
  case (Cons i ns)
  have pt: "pos_total d (i # ns) = (if d ! i > 0 then d ! i else 0) + pos_total d ns"
    by (simp add: pos_total_def)
  have dl: "demand_list k d (i # ns) =
      (if d ! i > 0 then [(k, i, d ! i)] else if d ! i < 0 then [(i, k + 1, - (d ! i))] else [])
      @ demand_list k d ns"
    by (simp add: demand_list_def)
  from Cons.prems(3) have lo: "- 2147483648 < d ! i" and rest: "\<forall>i \<in> set ns. - 2147483648 < d ! i"
    by auto
  note nn = pos_total_nonneg[of d ns]
  show ?case
  proof (cases "d ! i > 0")
    case True
    with Cons.prems(1,2) nn have w: "wrap32 (tot + d ! i) = tot + d ! i"
      by (intro wrap32_id) (auto simp: pt)
    from True Cons.prems(1,2) have "0 \<le> tot + d ! i" "tot + d ! i + pos_total d ns < 2147483648"
      by (auto simp: pt)
    from Cons.IH[OF this rest] True w show ?thesis
      by (simp add: pt dl add_edges_simps)
  next
    case False
    with Cons.prems(2) have p: "tot + pos_total d ns < 2147483648" by (simp add: pt)
    from lo have w: "d ! i < 0 \<Longrightarrow> wrap32 (- (d ! i)) = - (d ! i)"
      by (intro wrap32_id) auto
    from Cons.IH[OF Cons.prems(1) p rest] False w show ?thesis
      by (simp add: pt dl add_edges_simps)
  qed
qed

lemma valid_aux_edges:
  assumes "list_all (\<lambda>e. e_u e < k \<and> e_v e < k) edges" "s < k" "t < k"
  shows "valid_edges (k + 2) (aux_edges k s t edges)"
proof -
  have "valid_edges (k + 2) (slack_list edges)"
    using assms(1) by (auto simp: valid_edges_def slack_list_def list_all_iff)
  moreover have "valid_edges (k + 2) (demand_list k d [0..<k])" for d
    by (auto simp: valid_edges_def demand_list_def list_all_iff split: if_splits)
  moreover have "valid_edges (k + 2) [(t, s, INF_cap)]"
    using assms(2,3) by (simp add: valid_edges_def INF_cap_def)
  ultimately show ?thesis by (simp add: aux_edges_def valid_edges_def)
qed


lemma net_out_simps:
  "net_out [] ys v = 0"
  "net_out es [] v = 0"
  "net_out (e # es) (y # ys) v
     = ((if fst e = v then y else 0) - (if snd e = v then y else 0)) + net_out es ys v"
  by (simp_all add: net_out_def)

lemma net_out_append:
  "length xs = length ys \<Longrightarrow> net_out (xs @ xs') (ys @ ys') v = net_out xs ys v + net_out xs' ys' v"
  by (simp add: net_out_def)

lemma net_out_absent:
  "\<forall>e \<in> set es. fst e \<noteq> v \<and> snd e \<noteq> v \<Longrightarrow> net_out es ys v = 0"
proof (induction es arbitrary: ys)
  case Nil
  then show ?case by (simp add: net_out_simps)
next
  case (Cons e es)
  then show ?case by (cases ys) (simp_all add: net_out_simps)
qed

text \<open>
  The assignment read off a flow on the slack edges: the lower bound of each edge, plus
  the flow of its slack edge where it has one.
\<close>

fun assign :: "OriginalEdge list \<Rightarrow> int list \<Rightarrow> int list" where
  "assign [] ys = []"
| "assign (e # es) ys =
     (if upper e - lower e > 0 then (lower e + hd ys) # assign es (tl ys)
      else lower e # assign es ys)"

lemma assign_bounds:
  assumes "list_all2 (\<lambda>(u, v, c) y. 0 \<le> y \<and> y \<le> c) (slack_list edges) ys"
    and "list_all (\<lambda>e. lower e \<le> upper e) edges"
  shows "list_all2 (\<lambda>e y. lower e \<le> y \<and> y \<le> upper e) edges (assign edges ys)"
  using assms
proof (induction edges arbitrary: ys)
  case Nil
  then show ?case by simp
next
  case (Cons e es)
  show ?case
  proof (cases "upper e - lower e > 0")
    case True
    with Cons.prems(1) obtain y ys' where ys: "ys = y # ys'" "0 \<le> y" "y \<le> upper e - lower e"
      "list_all2 (\<lambda>(u, v, c) y. 0 \<le> y \<and> y \<le> c) (slack_list es) ys'"
      by (auto simp: slack_list_def list_all2_Cons1)
    with Cons.IH[OF ys(4)] Cons.prems(2) True show ?thesis by simp
  next
    case False
    with Cons.prems have "list_all2 (\<lambda>(u, v, c) y. 0 \<le> y \<and> y \<le> c) (slack_list es) ys"
      "lower e = upper e" by (auto simp: slack_list_def)
    with Cons.IH[of ys] Cons.prems(2) False show ?thesis by simp
  qed
qed

lemma assign_net_out:
  assumes "length ys = length (slack_list edges)"
  shows "net_out (map (\<lambda>e. (e_u e, e_v e)) edges) (assign edges ys) v
     = net_out (map (\<lambda>(u, v, c). (u, v)) (slack_list edges)) ys v
       + net_out (map (\<lambda>e. (e_u e, e_v e)) edges) (map lower edges) v"
  using assms
proof (induction edges arbitrary: ys)
  case Nil
  then show ?case by (simp add: net_out_simps slack_list_def)
next
  case (Cons e es)
  show ?case
  proof (cases "upper e - lower e > 0")
    case True
    with Cons.prems obtain y ys' where ys: "ys = y # ys'" "length ys' = length (slack_list es)"
      by (cases ys) (auto simp: slack_list_def)
    have sl: "slack_list (e # es) = (e_u e, e_v e, upper e - lower e) # slack_list es"
      using True by (simp add: slack_list_def)
    from Cons.IH[OF ys(2)] True show ?thesis
      by (simp add: ys(1) sl net_out_simps)
  next
    case False
    then have sl: "slack_list (e # es) = slack_list es" by (simp add: slack_list_def)
    with Cons.prems have "length ys = length (slack_list es)" by simp
    from Cons.IH[OF this] False show ?thesis
      by (simp add: sl net_out_simps)
  qed
qed

lemma sum_list_int_update:
  fixes d :: "int list"
  shows "i < length d \<Longrightarrow> sum_list (d[i := x]) = sum_list d - d ! i + x"
proof (induction d arbitrary: i)
  case Nil
  then show ?case by simp
next
  case (Cons a d)
  then show ?case by (cases i) auto
qed

lemma demands_fold:
  assumes "length d0 = k" "\<forall>e \<in> set edges. e_u e < k \<and> e_v e < k"
  shows "length (fold (\<lambda>e d. let d1 = d[e_u e := d ! e_u e - lower e] in d1[e_v e := d1 ! e_v e + lower e]) edges d0) = k
    \<and> sum_list (fold (\<lambda>e d. let d1 = d[e_u e := d ! e_u e - lower e] in d1[e_v e := d1 ! e_v e + lower e]) edges d0) = sum_list d0
    \<and> (\<forall>v < k. fold (\<lambda>e d. let d1 = d[e_u e := d ! e_u e - lower e] in d1[e_v e := d1 ! e_v e + lower e]) edges d0 ! v
          = d0 ! v - net_out (map (\<lambda>e. (e_u e, e_v e)) edges) (map lower edges) v)"
  using assms
proof (induction edges arbitrary: d0)
  case Nil
  then show ?case by (simp add: net_out_simps)
next
  case (Cons e es)
  let ?d1 = "d0[e_u e := d0 ! e_u e - lower e]"
  let ?d2 = "?d1[e_v e := ?d1 ! e_v e + lower e]"
  from Cons.prems have uv: "e_u e < k" "e_v e < k" and len: "length d0 = k" by auto
  have l2: "length ?d2 = k" using len by simp
  have s2: "sum_list ?d2 = sum_list d0"
    using uv len by (simp add: sum_list_int_update)
  have n2: "?d2 ! v = d0 ! v - ((if e_u e = v then lower e else 0) - (if e_v e = v then lower e else 0))"
    if "v < k" for v
    using that uv len by (auto simp: nth_list_update)
  from Cons.prems have "\<forall>e \<in> set es. e_u e < k \<and> e_v e < k" by simp
  from Cons.IH[OF l2 this] s2 n2 show ?case
    by (simp add: Let_def net_out_simps)
qed

text \<open>The demands computed without wrap-around.\<close>

definition exact_demands :: "nat \<Rightarrow> OriginalEdge list \<Rightarrow> int list" where
  "exact_demands k edges =
     fold (\<lambda>e d. let d1 = d[e_u e := d ! e_u e - lower e] in d1[e_v e := d1 ! e_v e + lower e])
       edges (replicate k 0)"

lemma demands_props:
  assumes "\<forall>e \<in> set edges. e_u e < k \<and> e_v e < k"
  shows "length (exact_demands k edges) = k" "sum_list (exact_demands k edges) = 0"
    "v < k \<Longrightarrow> exact_demands k edges ! v = - net_out (map (\<lambda>e. (e_u e, e_v e)) edges) (map lower edges) v"
  using demands_fold[OF _ assms, of "replicate k 0"]
  by (simp_all add: exact_demands_def sum_list_replicate)

text \<open>
  With lower bounds that are not negative and sum to less than \<open>2\<^sup>3\<^sup>1\<close>, no demand
  leaves the 32-bit range while it is accumulated: the demands of the code are the exact
  ones, each within the sum of the lower bounds, and so is the sum of the positive ones.
\<close>

lemma demands_no_wrap:
  assumes "length d0 = k" "\<forall>e \<in> set edges. e_u e < k \<and> e_v e < k \<and> 0 \<le> lower e"
    and "\<forall>v < k. - b \<le> d0 ! v \<and> d0 ! v \<le> b"
    and "b + sum_list (map lower edges) < 2147483648"
  shows "fold (\<lambda>e d. let d1 = d[e_u e := wrap32 (d ! e_u e - lower e)]
                    in d1[e_v e := wrap32 (d1 ! e_v e + lower e)]) edges d0
       = fold (\<lambda>e d. let d1 = d[e_u e := d ! e_u e - lower e] in d1[e_v e := d1 ! e_v e + lower e]) edges d0
     \<and> (\<forall>v < k. - (b + sum_list (map lower edges))
            \<le> fold (\<lambda>e d. let d1 = d[e_u e := d ! e_u e - lower e] in d1[e_v e := d1 ! e_v e + lower e]) edges d0 ! v
          \<and> fold (\<lambda>e d. let d1 = d[e_u e := d ! e_u e - lower e] in d1[e_v e := d1 ! e_v e + lower e]) edges d0 ! v
            \<le> b + sum_list (map lower edges))"
  using assms
proof (induction edges arbitrary: d0 b)
  case Nil
  then show ?case by simp
next
  case (Cons e es)
  let ?l = "lower e"
  let ?d1 = "d0[e_u e := d0 ! e_u e - ?l]"
  let ?d2 = "?d1[e_v e := ?d1 ! e_v e + ?l]"
  from Cons.prems have uv: "e_u e < k" "e_v e < k" and l0: "0 \<le> ?l" and len: "length d0 = k"
    and rest: "\<forall>e \<in> set es. e_u e < k \<and> e_v e < k \<and> 0 \<le> lower e" by auto
  from rest have s0: "0 \<le> sum_list (map lower es)" by (intro sum_list_nonneg) auto
  from Cons.prems(4) have bl: "b + ?l + sum_list (map lower es) < 2147483648" by simp
  from Cons.prems(3) uv have bu: "- b \<le> d0 ! e_u e" "d0 ! e_u e \<le> b" by auto
  from bu l0 s0 bl have w1: "wrap32 (d0 ! e_u e - ?l) = d0 ! e_u e - ?l"
    by (intro wrap32_id) auto
  have b1: "- (b + ?l) \<le> ?d1 ! v \<and> ?d1 ! v \<le> b" if v: "v < k" for v
  proof -
    from Cons.prems(3) v have "- b \<le> d0 ! v" "d0 ! v \<le> b" by auto
    with bu l0 v len show ?thesis by (cases "v = e_u e") (simp_all add: nth_list_update)
  qed
  from b1[OF uv(2)] l0 s0 bl have w2: "wrap32 (?d1 ! e_v e + ?l) = ?d1 ! e_v e + ?l"
    by (intro wrap32_id) auto
  have l2: "length ?d2 = k" using len by simp
  have b2: "\<forall>v < k. - (b + ?l) \<le> ?d2 ! v \<and> ?d2 ! v \<le> b + ?l"
  proof (intro allI impI)
    fix v assume v: "v < k"
    from b1[OF v] b1[OF uv(2)] l0 v len show "- (b + ?l) \<le> ?d2 ! v \<and> ?d2 ! v \<le> b + ?l"
      by (cases "v = e_v e") (simp_all add: nth_list_update)
  qed
  from Cons.IH[OF l2 rest b2 bl] w1 w2 show ?case
    by (simp add: Let_def add.assoc)
qed

lemma sum_list_map_update:
  fixes f :: "int \<Rightarrow> int"
  shows "i < length d \<Longrightarrow> sum_list (map f (d[i := x])) = sum_list (map f d) - f (d ! i) + f x"
  by (simp add: map_update sum_list_int_update)

lemma demands_positive_part:
  assumes "length d0 = k" "\<forall>e \<in> set edges. e_u e < k \<and> e_v e < k \<and> 0 \<le> lower e"
  shows "sum_list (map (max 0)
           (fold (\<lambda>e d. let d1 = d[e_u e := d ! e_u e - lower e] in d1[e_v e := d1 ! e_v e + lower e]) edges d0))
     \<le> sum_list (map (max 0) d0) + sum_list (map lower edges)"
  using assms
proof (induction edges arbitrary: d0)
  case Nil
  then show ?case by simp
next
  case (Cons e es)
  let ?l = "lower e"
  let ?d1 = "d0[e_u e := d0 ! e_u e - ?l]"
  let ?d2 = "?d1[e_v e := ?d1 ! e_v e + ?l]"
  from Cons.prems have uv: "e_u e < k" "e_v e < k" and l0: "0 \<le> ?l" and len: "length d0 = k"
    and rest: "\<forall>e \<in> set es. e_u e < k \<and> e_v e < k \<and> 0 \<le> lower e" by auto
  have "sum_list (map (max 0) ?d1) \<le> sum_list (map (max 0) d0)"
    using uv len l0 by (simp add: sum_list_map_update)
  moreover have "sum_list (map (max 0) ?d2) \<le> sum_list (map (max 0) ?d1) + ?l"
    using uv len l0 by (subst sum_list_map_update) auto
  ultimately have st: "sum_list (map (max 0) ?d2) \<le> sum_list (map (max 0) d0) + ?l" by simp
  have l2: "length ?d2 = k" using len by simp
  from Cons.IH[OF l2 rest] st show ?case by (simp add: Let_def)
qed

lemma pos_total_max: "pos_total d [0..<length d] = sum_list (map (max 0) d)"
proof -
  have "map (\<lambda>i. if d ! i > 0 then d ! i else 0) [0..<length d] = map (max 0) (map ((!) d) [0..<length d])"
    by (auto simp: max_def)
  then show ?thesis by (simp add: pos_total_def map_nth)
qed

lemma demands_exact:
  assumes ve: "\<forall>e \<in> set edges. e_u e < k \<and> e_v e < k" and sb: "small_bounds edges"
  shows "demands k edges = exact_demands k edges"
    and "\<forall>v < k. - 2147483648 < exact_demands k edges ! v"
    and "pos_total (exact_demands k edges) [0..<k] < 2147483648"
proof -
  from ve sb have h: "\<forall>e \<in> set edges. e_u e < k \<and> e_v e < k \<and> 0 \<le> lower e"
    and su: "sum_list (map lower edges) < 2147483648"
    by (auto simp: small_bounds_def list_all_iff)
  from su have su0: "0 + sum_list (map lower edges) < 2147483648" by simp
  note nw = demands_no_wrap[OF _ h _ su0, of "replicate k 0"]
  from nw show "demands k edges = exact_demands k edges"
    by (simp add: demands_def exact_demands_def)
  from nw su show "\<forall>v < k. - 2147483648 < exact_demands k edges ! v"
    by (fastforce simp: exact_demands_def)
  from demands_positive_part[OF _ h, of "replicate k 0"]
  have "sum_list (map (max 0) (exact_demands k edges)) \<le> sum_list (map lower edges)"
    by (simp add: exact_demands_def sum_list_replicate)
  moreover from pos_total_max[of "exact_demands k edges"] demands_props(1)[OF ve]
  have "pos_total (exact_demands k edges) [0..<k] = sum_list (map (max 0) (exact_demands k edges))"
    by simp
  ultimately show "pos_total (exact_demands k edges) [0..<k] < 2147483648" using su by simp
qed

lemma aux_graph_eq:
  assumes ve: "\<forall>e \<in> set edges. e_u e < k \<and> e_v e < k" and sb: "small_bounds edges"
    and lu: "\<forall>e \<in> set edges. lower e \<le> upper e"
  shows "aux_graph k s t edges = (build (k + 2) (aux_edges k s t edges), pos_total (demands k edges) [0..<k])"
proof -
  from sb lu have sl: "\<forall>e \<in> set edges. - 2147483648 \<le> upper e - lower e \<and> upper e - lower e < 2147483648"
    by (fastforce simp: small_bounds_def list_all_iff)
  note de = demands_exact[OF ve sb]
  have "fold (\<lambda>i (g, tot).
             if demands k edges ! i > 0 then (add_edge g k i (demands k edges ! i), wrap32 (tot + demands k edges ! i))
             else if demands k edges ! i < 0 then (add_edge g i (k + 1) (wrap32 (- (demands k edges ! i))), tot)
             else (g, tot)) [0..<k] (g, 0)
      = (add_edges (demand_list k (demands k edges) [0..<k]) g, 0 + pos_total (demands k edges) [0..<k])" for g
    by (rule demand_step_eq) (use de in auto)
  then show ?thesis
    by (simp add: aux_graph_def demand_edges_def slack_edges_eq[OF sl] aux_edges_def
        build_add_edges add_edges_simps)
qed

text \<open>The capacities of the auxiliary edges that leave the supersource sum to the total positive demand.\<close>

lemma demand_list_out:
  assumes "\<forall>i \<in> set ns. i < k"
  shows "(\<Sum>(u, v, c)\<leftarrow>demand_list k d ns. if u = k then c else 0) = pos_total d ns"
  using assms by (induction ns) (auto simp: demand_list_def pos_total_def)

lemma aux_edges_out:
  assumes ve: "\<forall>e \<in> set edges. e_u e < k \<and> e_v e < k" and t: "t < k"
  shows "(\<Sum>(u, v, c)\<leftarrow>aux_edges k s t edges. if u = k then c else 0) = pos_total (demands k edges) [0..<k]"
proof -
  have "(\<Sum>(u, v, c)\<leftarrow>slack_list edges. if u = k then c else 0) = 0"
    using ve by (induction edges) (auto simp: slack_list_def)
  with demand_list_out[of "[0..<k]" k "demands k edges"] t show ?thesis
    by (simp add: aux_edges_def)
qed


lemma net_out_super_diff:
  assumes "list_all (\<lambda>(u, v). (u = k \<and> v < k) \<or> (u < k \<and> v = Suc k)) es" "length ys = length es"
  shows "net_out es ys k - net_out es ys (Suc k) = sum_list ys"
  using assms(2,1)
proof (induction ys es rule: list_induct2)
  case Nil
  then show ?case by (simp add: net_out_simps)
next
  case (Cons y ys e es)
  then show ?case by (auto simp: net_out_simps)
qed

lemma bounded_sum_eq:
  fixes cs ys :: "int list"
  assumes "list_all2 (\<lambda>c y. y \<le> c) cs ys"
  shows "sum_list ys \<le> sum_list cs" and "sum_list ys = sum_list cs \<Longrightarrow> ys = cs"
proof -
  from assms show le: "sum_list ys \<le> sum_list cs"
    by (induction rule: list_all2_induct) auto
  from assms show "sum_list ys = sum_list cs \<Longrightarrow> ys = cs"
  proof (induction rule: list_all2_induct)
    case Nil
    then show ?case by simp
  next
    case (Cons c cs y ys)
    from Cons.hyps(2) have "sum_list ys \<le> sum_list cs"
      by (induction rule: list_all2_induct) auto
    with Cons.hyps(1) Cons.prems have "y = c" "sum_list ys = sum_list cs" by auto
    with Cons.IH show ?case by simp
  qed
qed

lemma demand_list_simps:
  "demand_list k d [] = []"
  "demand_list k d (i # ns) =
     (if d ! i > 0 then [(k, i, d ! i)] else if d ! i < 0 then [(i, k + 1, - (d ! i))] else [])
     @ demand_list k d ns"
  by (simp_all add: demand_list_def)

lemma demand_list_caps:
  "sum_list (map (\<lambda>(u, v, c). c) (demand_list k d ns))
     = 2 * pos_total d ns - sum_list (map (\<lambda>i. d ! i) ns)"
  by (induction ns) (simp_all add: demand_list_simps pos_total_def)

lemma demand_list_net_out:
  assumes "\<forall>i \<in> set ns. i < k" "v < k"
  shows "net_out (map (\<lambda>(u, v, c). (u, v)) (demand_list k d ns))
           (map (\<lambda>(u, v, c). c) (demand_list k d ns)) v
     = sum_list (map (\<lambda>i. if i = v then - (d ! i) else 0) ns)"
  using assms(1)
proof (induction ns)
  case Nil
  then show ?case by (simp add: demand_list_simps net_out_simps)
next
  case (Cons i ns)
  then have IH: "net_out (map (\<lambda>(u, v, c). (u, v)) (demand_list k d ns))
           (map (\<lambda>(u, v, c). c) (demand_list k d ns)) v
     = sum_list (map (\<lambda>i. if i = v then - (d ! i) else 0) ns)" and i: "i < k" by auto
  show ?case
    using IH i assms(2) by (auto simp: demand_list_simps net_out_simps)
qed

lemma sum_list_indicator:
  fixes f :: "nat \<Rightarrow> int"
  shows "sum_list (map (\<lambda>i. if i = v then f i else 0) [0..<k]) = (if v < k then f v else 0)"
  by (induction k) auto

lemma demand_list_ends:
  "list_all (\<lambda>(u, v). (u = k \<and> v < k) \<or> (u < k \<and> v = Suc k))
     (map (\<lambda>(u, v, c). (u, v)) (demand_list k d [0..<k]))"
  by (auto simp: list_all_iff demand_list_def split: if_splits)

text \<open>
  From a flow of value \<^verbatim>\<open>total_positive_demand\<close> on the auxiliary graph to an assignment
  within the bounds: every edge of the supersource and of the supersink is saturated,
  so the flow on the slack edges, added to the lower bounds, is conserved at the nodes
  other than \<open>s\<close> and \<open>t\<close>, and the flow on the edge from \<open>t\<close> to \<open>s\<close> is what leaves
  \<open>s\<close>.
\<close>

lemma feasible_from_aux_flow:
  assumes run: "isap (build (k + 2) (aux_edges k s t edges)) k (k + 1)
                  = Some (Inr (pos_total (demands k edges) [0..<k], g')) \<or>
                isap_raw m (build (k + 2) (aux_edges k s t edges)) k (k + 1)
                  = Some (Inr (pos_total (demands k edges) [0..<k], g'))"
    and lu: "list_all (\<lambda>e. lower e \<le> upper e) edges"
    and ve: "list_all (\<lambda>e. e_u e < k \<and> e_v e < k) edges" and s: "s < k" and t: "t < k"
    and sb: "small_bounds edges"
  shows "\<exists>f. feasible_assignment k s t edges f \<and>
     (s \<noteq> t \<longrightarrow> 0 \<le> net_out (map (\<lambda>e. (e_u e, e_v e)) edges) f s \<and>
                  net_out (map (\<lambda>e. (e_u e, e_v e)) edges) f s \<le> INF_cap)"
proof -
  let ?d = "demands k edges"
  let ?tot = "pos_total ?d [0..<k]"
  let ?sl = "slack_list edges" and ?dl = "demand_list k ?d [0..<k]"
  let ?aux = "aux_edges k s t edges"
  let ?E = "\<lambda>es :: (nat \<times> nat \<times> int) list. map (\<lambda>(u, v, c). (u, v)) es"
  let ?B = "\<lambda>(u :: nat, v :: nat, c :: int) y :: int. 0 \<le> y \<and> y \<le> c"
  let ?ends = "map (\<lambda>e. (e_u e, e_v e)) edges"
  from ve have ve': "\<forall>e \<in> set edges. e_u e < k \<and> e_v e < k" by (simp add: list_all_iff)
  note de = demands_exact[OF ve' sb]
  note dp = demands_props[OF ve', folded de(1)]
  from aux_edges_out[OF ve' t, of s] de(1,3)
  have room: "k \<noteq> k + 1 \<longrightarrow> (\<Sum>(u, v, c)\<leftarrow>?aux. if u = k then c else 0) < 2147483648" by simp
  from isap_flow_lemma[OF valid_aux_edges[OF ve s t] _ _ run room] obtain F where
    fl: "is_flow (k + 2) ?aux k (k + 1) F"
    and ex: "\<forall>v < k + 2. net_out (?E ?aux) F v = (if v = k then ?tot else 0) - (if v = k + 1 then ?tot else 0)"
    by auto
  from fl have "list_all2 ?B (?sl @ ?dl @ [(t, s, INF_cap)]) F"
    by (simp add: is_flow_def aux_edges_def)
  then obtain Fs Fd ft where F: "F = Fs @ Fd @ [ft]"
    and bs: "list_all2 ?B ?sl Fs" and bd: "list_all2 ?B ?dl Fd" and bt: "0 \<le> ft" "ft \<le> INF_cap"
    by (auto simp: list_all2_append1 list_all2_Cons1)
  from bs bd have ls: "length Fs = length ?sl" and ld: "length Fd = length ?dl"
    by (simp_all add: list_all2_lengthD)
  have split: "net_out (?E ?aux) F v = net_out (?E ?sl) Fs v + net_out (?E ?dl) Fd v
      + ((if t = v then ft else 0) - (if s = v then ft else 0))" for v
    using ls ld by (simp add: aux_edges_def F net_out_append net_out_simps)
  have sl_abs: "net_out (?E ?sl) Fs v = 0" if "k \<le> v" for v
    by (rule net_out_absent) (use ve' that in \<open>auto simp: slack_list_def\<close>)
  from ex[rule_format, of k] split[of k] sl_abs[of k] s t
  have dk: "net_out (?E ?dl) Fd k = ?tot" by simp
  from ex[rule_format, of "k + 1"] split[of "k + 1"] sl_abs[of "k + 1"] s t
  have dk1: "net_out (?E ?dl) Fd (Suc k) = - ?tot" by simp
  have "net_out (?E ?dl) Fd k - net_out (?E ?dl) Fd (Suc k) = sum_list Fd"
    by (rule net_out_super_diff[OF demand_list_ends]) (simp add: ld)
  with dk dk1 have sumF: "sum_list Fd = 2 * ?tot" by simp
  have "map (\<lambda>i. ?d ! i) [0..<k] = ?d" using dp(1) by (metis map_nth)
  with dp(2) have "sum_list (map (\<lambda>(u, v, c). c) ?dl) = 2 * ?tot"
    by (simp add: demand_list_caps)
  moreover have "list_all2 (\<lambda>c y. y \<le> c) (map (\<lambda>(u, v, c). c) ?dl) Fd"
    unfolding list_all2_map1 by (rule list_all2_mono[OF bd]) auto
  ultimately have Fd: "Fd = map (\<lambda>(u, v, c). c) ?dl"
    using bounded_sum_eq(2) sumF by metis
  have dv: "net_out (?E ?dl) Fd v = - (?d ! v)" if "v < k" for v
    unfolding Fd using that by (simp add: demand_list_net_out sum_list_indicator)
  let ?f = "assign edges Fs"
  have bounds: "list_all2 (\<lambda>e y. lower e \<le> y \<and> y \<le> upper e) edges ?f"
    by (rule assign_bounds[OF bs lu])
  have net: "net_out ?ends ?f v = (if s = v then ft else 0) - (if t = v then ft else 0)" if v: "v < k" for v
  proof -
    from ex v have "net_out (?E ?aux) F v = 0" by simp
    with split[of v] dv[OF v] have "net_out (?E ?sl) Fs v - ?d ! v = (if s = v then ft else 0) - (if t = v then ft else 0)"
      by simp
    with assign_net_out[OF ls, of v] dp(3)[OF v] show ?thesis by simp
  qed
  have "feasible_assignment k s t edges ?f"
    unfolding feasible_assignment_def using bounds net by (auto simp: list_all_iff)
  moreover have "s \<noteq> t \<longrightarrow> 0 \<le> net_out ?ends ?f s \<and> net_out ?ends ?f s \<le> INF_cap"
    using net[OF s] bt by simp
  ultimately show ?thesis by blast
qed

section \<open>The claims\<close>

text \<open>
  Claim C6. Whenever some edge has \<open>lower > upper\<close>, \<^verbatim>\<open>has_feasible_flow\<close> returns
  \<open>false\<close>: for every node count, source, sink and edge list (node handles of any value
  included), the result is the plain value \<open>false\<close>, neither an error nor a missing
  result, so it does not depend on the auxiliary graph or on the flow computation.
\<close>

theorem has_feasible_flow_lower_exceeds_upper:
  assumes "list_ex (\<lambda>e. lower e > upper e) edges"
  shows "has_feasible_flow k s t edges = Some (Inr False)"
  using assms by (simp add: has_feasible_flow_def)

theorem has_feasible_flow_lower_exceeds_upper_witness:
  "list_ex (\<lambda>e. lower e > upper e)
     [\<lparr>e_u = 0, e_v = 1, lower = 5, upper = 3\<rparr>, \<lparr>e_u = 1, e_v = 2, lower = 1, upper = 4\<rparr>] \<and>
   has_feasible_flow 3 0 2
     [\<lparr>e_u = 0, e_v = 1, lower = 5, upper = 3\<rparr>, \<lparr>e_u = 1, e_v = 2, lower = 1, upper = 4\<rparr>]
     = Some (Inr False)"
proof -
  have h: "list_ex (\<lambda>e. lower e > upper e)
     [\<lparr>e_u = 0, e_v = 1, lower = 5, upper = 3\<rparr>, \<lparr>e_u = 1, e_v = 2, lower = 1, upper = 4\<rparr>]"
    by simp
  from has_feasible_flow_lower_exceeds_upper [OF h, of 3 0 2] h show ?thesis by simp
qed

text \<open>
  Claim C1. On the 5-node graph with the edges (0,1,2) (1,2,1) (1,3,1) (3,2,1) (1,4,1),
  \<^verbatim>\<open>isap(0, 2)\<close> returns 1, while the assignment 2, 1, 1, 1, 0 is a flow from 0 to 2 of
  value 2: the returned value is not the maximum.
\<close>

theorem isap_returns_less_than_maximum:
  "map_option (map_sum id fst)
     (isap (build 5 [(0, 1, 2), (1, 2, 1), (1, 3, 1), (3, 2, 1), (1, 4, 1)]) 0 2) = Some (Inr 1) \<and>
   is_flow 5 [(0, 1, 2), (1, 2, 1), (1, 3, 1), (3, 2, 1), (1, 4, 1)] 0 2 [2, 1, 1, 1, 0] \<and>
   flow_value [(0, 1, 2), (1, 2, 1), (1, 3, 1), (3, 2, 1), (1, 4, 1)] 0 [2, 1, 1, 1, 0] = 2"
  by code_simp


text \<open>
  Claim C7. On the graph of claim C1, \<^verbatim>\<open>isap(0, 2)\<close> returns 1, and a second call on the
  graph it leaves returns 1 again, not 0.
\<close>

theorem isap_second_run_not_zero:
  "Option.bind (isap (build 5 [(0, 1, 2), (1, 2, 1), (1, 3, 1), (3, 2, 1), (1, 4, 1)]) 0 2)
     (\<lambda>r. case r of
             Inl err \<Rightarrow> None
           | Inr (f1, g1) \<Rightarrow> map_option (map_sum id (\<lambda>r2. (f1, fst r2))) (isap g1 0 2))
   = Some (Inr (1, 1))"
  by code_simp

text \<open>
  Claim C9. On the graph of claim C1 with sink 2, node 4 cannot reach the sink; the
  labeling gives it the label \<open>-1\<close>, not \<open>n = 5\<close>, and the relabeling of node 1 uses that
  value: node 1, whose residual neighbours 0, 3 and 4 carry the labels 2, 1 and \<open>-1\<close>,
  ends with the label 0 (it would be 2 with node 4 counted as \<open>n\<close>).
\<close>

theorem unreachable_node_labelled_minus_one:
  "map_sum id level (bfs (build 5 [(0, 1, 2), (1, 2, 1), (1, 3, 1), (3, 2, 1), (1, 4, 1)]) 2)
     = Inr [2, 1, 0, 1, - 1] \<and>
   map_option (map_sum id (\<lambda>r. level (snd r)))
     (isap (build 5 [(0, 1, 2), (1, 2, 1), (1, 3, 1), (3, 2, 1), (1, 4, 1)]) 0 2)
     = Some (Inr [2, 0, 0, 1, - 1])"
  by code_simp

text \<open>
  Claim C10. On the 3-node graph with the edges (0,1,1) (2,1,1), \<^verbatim>\<open>isap(0, 1)\<close> pushes
  one unit; the retreat at node 0 finds no residual edge, so \<^verbatim>\<open>min_level\<close> is \<open>n = 3\<close>,
  and the increment \<^verbatim>\<open>gap[min_level + 1]++\<close> addresses \<^verbatim>\<open>gap[4]\<close> in a vector of size 3.
\<close>

theorem isap_relabel_leaves_gap:
  "isap (build 3 [(0, 1, 1), (2, 1, 1)]) 0 1 = Some (Inl (GapOutOfBounds 4))"
  by code_simp

text \<open>
  Claim C2. For the bounded edges (0,3,2,2) (1,0,1,2) (1,2,0,1) with 4 nodes, source 1 and
  sink 3, the assignment 2, 2, 0 lies within the bounds, is conserved at the nodes 0 and 2
  and carries 2 units from the source to the sink: a feasible assignment exists, and
  \<^verbatim>\<open>has_feasible_flow\<close> returns \<open>false\<close> (the auxiliary flow computation stops at 1 of 2
  units, as in claim C1).
\<close>

theorem has_feasible_flow_rejects_feasible:
  "has_feasible_flow 4 1 3
     [\<lparr>e_u = 0, e_v = 3, lower = 2, upper = 2\<rparr>, \<lparr>e_u = 1, e_v = 0, lower = 1, upper = 2\<rparr>,
      \<lparr>e_u = 1, e_v = 2, lower = 0, upper = 1\<rparr>] = Some (Inr False) \<and>
   feasible_assignment 4 1 3
     [\<lparr>e_u = 0, e_v = 3, lower = 2, upper = 2\<rparr>, \<lparr>e_u = 1, e_v = 0, lower = 1, upper = 2\<rparr>,
      \<lparr>e_u = 1, e_v = 2, lower = 0, upper = 1\<rparr>] [2, 2, 0] \<and>
   net_out [(0, 3), (1, 0), (1, 2)] [2, 2, 0] 1 = 2"
  by code_simp

text \<open>
  Claim C8. For the bounded edges (0,2,0,1) (1,3,2,2) (3,0,2,2) with 4 nodes, source 1 and
  sink 0, \<^verbatim>\<open>has_feasible_flow\<close> returns \<open>true\<close>; with the lower bound of the edge (1,3)
  decreased from 2 to 1 and nothing else changed, it returns \<open>false\<close>.
\<close>

theorem has_feasible_flow_not_monotone:
  "has_feasible_flow 4 1 0
     [\<lparr>e_u = 0, e_v = 2, lower = 0, upper = 1\<rparr>, \<lparr>e_u = 1, e_v = 3, lower = 2, upper = 2\<rparr>,
      \<lparr>e_u = 3, e_v = 0, lower = 2, upper = 2\<rparr>] = Some (Inr True) \<and>
   has_feasible_flow 4 1 0
     [\<lparr>e_u = 0, e_v = 2, lower = 0, upper = 1\<rparr>, \<lparr>e_u = 1, e_v = 3, lower = 1, upper = 2\<rparr>,
      \<lparr>e_u = 3, e_v = 0, lower = 2, upper = 2\<rparr>] = Some (Inr False)"
  by code_simp

text \<open>
  Claim C5. For a well-formed graph and nodes \<open>s\<close>, \<open>t\<close>: if \<open>t\<close> is not reachable from
  \<open>s\<close> in the residual graph, \<^verbatim>\<open>isap(s, t)\<close> returns 0 and the adjacency vectors (every
  edge record, its flow included) are as before.
\<close>

theorem isap_unreachable_returns_zero:
  assumes "wf_graph g" and "s < n_nodes g" and "t < n_nodes g"
    and "(s, t) \<notin> (residual g)\<^sup>*"
  shows "\<exists>g'. isap g s t = Some (Inr (0, g')) \<and> adj g' = adj g"
proof -
  from bfs_ok[OF assms(1,3)] obtain lev gp where
    b: "bfs g t = Inr (g\<lparr>level := lev, gap := gp\<rparr>)" and inv: "bfs_inv g t lev gp []" by blast
  from inv assms(2,4) have "lev ! s = - 1" "length lev = n_nodes g" by (auto simp: bfs_inv_def)
  with b assms(2) show ?thesis by (simp add: isap_def)
qed

theorem isap_unreachable_returns_zero_witness:
  "wf_graph (build 3 [(0, 1, 10)]) \<and> (0, 2) \<notin> (residual (build 3 [(0, 1, 10)]))\<^sup>* \<and>
   (\<exists>g'. isap (build 3 [(0, 1, 10)]) 0 2 = Some (Inr (0, g')) \<and> adj g' = adj (build 3 [(0, 1, 10)]))"
proof -
  define g where "g = build 3 [(0, 1, 10)]"
  have wf: "wf_graph g" unfolding g_def by (rule wf_graph_build) simp
  have n: "n_nodes g = 3" unfolding g_def by code_simp
  have a: "adj g = [[\<lparr>to = 1, cap = 10, flow = 0, rev_idx = 0\<rparr>],
                    [\<lparr>to = 0, cap = 0, flow = 0, rev_idx = 0\<rparr>], []]"
    unfolding g_def by code_simp
  have step: "y = 1" if "(x, y) \<in> residual g" for x y
  proof -
    from that have "x < 3" by (simp add: residual_def n)
    then consider "x = 0" | "x = 1" | "x = 2" by linarith
    then show ?thesis using that by cases (auto simp: residual_def a)
  qed
  have "y \<noteq> 2" if "(0, y) \<in> (residual g)\<^sup>*" for y
    using that by (induction rule: rtrancl_induct) (auto dest: step)
  then have unreach: "(0, 2) \<notin> (residual g)\<^sup>*" by blast
  from isap_unreachable_returns_zero[OF wf _ _ unreach] n wf unreach show ?thesis
    unfolding g_def by simp
qed

text \<open>
  Claim C4. In every graph a caller can hold (after the constructor, after every
  \<^verbatim>\<open>add_edge\<close>, after every \<^verbatim>\<open>isap\<close> call that returns, the calls that run past an
  access outside \<^verbatim>\<open>gap\<close> included), for the two records pushed by any one \<^verbatim>\<open>add_edge\<close>
  call: the forward flow is the negated reverse flow, and the forward flow lies between
  0 and the capacity.
\<close>

theorem paired_flow_invariant:
  assumes "built g ps" and "((u, i), (v, j)) \<in> set ps"
  shows "flow (adj g ! u ! i) = - flow (adj g ! v ! j) \<and>
         0 \<le> flow (adj g ! u ! i) \<and> flow (adj g ! u ! i) \<le> cap (adj g ! u ! i)"
  using assms by (rule built_pair_flows)

text \<open>
  The witness is the call \<^verbatim>\<open>isap(0, 1)\<close> on the 3-node graph with the edges (0,1,1)
  (2,1,1): it pushes one unit, increments \<^verbatim>\<open>gap[4]\<close> outside the vector, sets the label of
  node 0 to 4, leaves the loop and returns 1.
\<close>

theorem paired_flow_invariant_witness:
  "built \<lparr>n_nodes = 3,
          adj = [[\<lparr>to = 1, cap = 1, flow = 1, rev_idx = 0\<rparr>],
                 [\<lparr>to = 0, cap = 0, flow = - 1, rev_idx = 0\<rparr>, \<lparr>to = 2, cap = 0, flow = 0, rev_idx = 0\<rparr>],
                 [\<lparr>to = 1, cap = 1, flow = 0, rev_idx = 1\<rparr>]],
          level = [4, 0, 1], gap = [1, 1, 0]\<rparr> [((0, 0), (1, 0)), ((2, 0), (1, 1))] \<and>
   isap_raw (\<lambda>i. 0) (add_edge (add_edge (Isap_new 3) 0 1 1) 2 1 1) 0 1 =
     Some (Inr (1, \<lparr>n_nodes = 3,
          adj = [[\<lparr>to = 1, cap = 1, flow = 1, rev_idx = 0\<rparr>],
                 [\<lparr>to = 0, cap = 0, flow = - 1, rev_idx = 0\<rparr>, \<lparr>to = 2, cap = 0, flow = 0, rev_idx = 0\<rparr>],
                 [\<lparr>to = 1, cap = 1, flow = 0, rev_idx = 1\<rparr>]],
          level = [4, 0, 1], gap = [1, 1, 0]\<rparr>)) \<and>
   flow ([[\<lparr>to = 1, cap = 1, flow = 1, rev_idx = 0\<rparr>],
          [\<lparr>to = 0, cap = 0, flow = - 1, rev_idx = 0\<rparr>, \<lparr>to = 2, cap = 0, flow = 0, rev_idx = 0\<rparr>],
          [\<lparr>to = 1, cap = 1, flow = 0, rev_idx = 1\<rparr>]] ! 0 ! 0)
     = - flow ([[\<lparr>to = 1, cap = 1, flow = 1, rev_idx = 0\<rparr>],
          [\<lparr>to = 0, cap = 0, flow = - 1, rev_idx = 0\<rparr>, \<lparr>to = 2, cap = 0, flow = 0, rev_idx = 0\<rparr>],
          [\<lparr>to = 1, cap = 1, flow = 0, rev_idx = 1\<rparr>]] ! 1 ! 0) \<and>
   0 \<le> flow ([[\<lparr>to = 1, cap = 1, flow = 1, rev_idx = 0\<rparr>],
          [\<lparr>to = 0, cap = 0, flow = - 1, rev_idx = 0\<rparr>, \<lparr>to = 2, cap = 0, flow = 0, rev_idx = 0\<rparr>],
          [\<lparr>to = 1, cap = 1, flow = 0, rev_idx = 1\<rparr>]] ! 0 ! 0) \<and>
   flow ([[\<lparr>to = 1, cap = 1, flow = 1, rev_idx = 0\<rparr>],
          [\<lparr>to = 0, cap = 0, flow = - 1, rev_idx = 0\<rparr>, \<lparr>to = 2, cap = 0, flow = 0, rev_idx = 0\<rparr>],
          [\<lparr>to = 1, cap = 1, flow = 0, rev_idx = 1\<rparr>]] ! 0 ! 0)
     \<le> cap ([[\<lparr>to = 1, cap = 1, flow = 1, rev_idx = 0\<rparr>],
          [\<lparr>to = 0, cap = 0, flow = - 1, rev_idx = 0\<rparr>, \<lparr>to = 2, cap = 0, flow = 0, rev_idx = 0\<rparr>],
          [\<lparr>to = 1, cap = 1, flow = 0, rev_idx = 1\<rparr>]] ! 0 ! 0)"
proof -
  define g' where "g' = \<lparr>n_nodes = 3,
          adj = [[\<lparr>to = 1, cap = 1, flow = 1, rev_idx = 0\<rparr>],
                 [\<lparr>to = 0, cap = 0, flow = - 1, rev_idx = 0\<rparr>, \<lparr>to = 2, cap = 0, flow = 0, rev_idx = 0\<rparr>],
                 [\<lparr>to = 1, cap = 1, flow = 0, rev_idx = 1\<rparr>]],
          level = [4, 0, 1], gap = [1, 1, 0]\<rparr>"
  have b1: "built (add_edge (Isap_new 3) 0 1 1) [((0, 0), (1, 0))]"
    using built_add[OF built_new, of 0 3 1 1] by (simp add: Isap_new_def)
  have b2: "built (add_edge (add_edge (Isap_new 3) 0 1 1) 2 1 1) [((0, 0), (1, 0)), ((2, 0), (1, 1))]"
    using built_add[OF b1, of 2 1 1] by (simp add: add_edge_def Isap_new_def)
  have r: "isap_raw (\<lambda>i. 0) (add_edge (add_edge (Isap_new 3) 0 1 1) 2 1 1) 0 1 = Some (Inr (1, g'))"
    unfolding g'_def by code_simp
  have b: "built g' [((0, 0), (1, 0)), ((2, 0), (1, 1))]"
    by (rule built_run_raw[OF b2 _ _ r]) (simp_all add: add_edge_def Isap_new_def)
  from paired_flow_invariant[OF b, of 0 0 1 0] b r show ?thesis
    unfolding g'_def by simp
qed

section \<open>Further properties of the code\<close>

text \<open>
  Flow conservation, capacity bound and value consistency. On a graph freshly built by
  the constructor and \<^verbatim>\<open>add_edge\<close> calls with nodes below \<open>k\<close> and capacities that are
  not negative, for distinct nodes \<open>s\<close> and \<open>t\<close> with the capacities of the edges that
  leave \<open>s\<close> summing to less than \<open>2\<^sup>3\<^sup>1\<close>: when \<^verbatim>\<open>isap(s, t)\<close> returns \<open>fl\<close>, the
  flows it leaves on the edges are a flow from \<open>s\<close> to \<open>t\<close> (every edge between 0 and its
  capacity, conservation at every other node), the net flow out of \<open>s\<close> is \<open>fl\<close> and the
  net flow out of \<open>t\<close> is \<open>- fl\<close>.
\<close>

theorem isap_returns_valid_flow:
  assumes "valid_edges k es" and "s < k" and "t < k" and "s \<noteq> t"
    and "isap (build k es) s t = Some (Inr (fl, g'))"
    and "(\<Sum>(u, v, c)\<leftarrow>es. if u = s then c else 0) < 2147483648"
  shows "\<exists>F. is_flow k es s t F \<and> flow_value es s F = fl \<and> flow_value es t F = - fl"
proof -
  from assms(6) have "s \<noteq> t \<longrightarrow> (\<Sum>(u, v, c)\<leftarrow>es. if u = s then c else 0) < 2147483648" by simp
  from isap_flow_lemma[OF assms(1,2,3) disjI1[OF assms(5)] this] obtain F where
    "is_flow k es s t F"
    "\<forall>v < k. net_out (map (\<lambda>(u, v, c). (u, v)) es) F v = (if v = s then fl else 0) - (if v = t then fl else 0)"
    by blast
  with assms(2,3,4) show ?thesis by (auto simp: flow_value_def)
qed

theorem isap_returns_valid_flow_witness:
  "valid_edges 2 [(0, 1, 3)] \<and>
   isap (build 2 [(0, 1, 3)]) 0 1 =
     Some (Inr (3, \<lparr>n_nodes = 2,
          adj = [[\<lparr>to = 1, cap = 3, flow = 3, rev_idx = 0\<rparr>], [\<lparr>to = 0, cap = 0, flow = - 3, rev_idx = 0\<rparr>]],
          level = [1, 0], gap = [1, 0]\<rparr>)) \<and>
   (\<exists>F. is_flow 2 [(0, 1, 3)] 0 1 F \<and> flow_value [(0, 1, 3)] 0 F = 3 \<and> flow_value [(0, 1, 3)] 1 F = - 3)"
proof -
  have v: "valid_edges 2 [(0, 1, 3)]" by (simp add: valid_edges_def)
  have r: "isap (build 2 [(0, 1, 3)]) 0 1 =
     Some (Inr (3, \<lparr>n_nodes = 2,
          adj = [[\<lparr>to = 1, cap = 3, flow = 3, rev_idx = 0\<rparr>], [\<lparr>to = 0, cap = 0, flow = - 3, rev_idx = 0\<rparr>]],
          level = [1, 0], gap = [1, 0]\<rparr>))"
    by code_simp
  from isap_returns_valid_flow[OF v _ _ _ r] v r show ?thesis by simp
qed

text \<open>
  The same for a call that runs past an access outside \<^verbatim>\<open>gap\<close>, whatever the cells
  around the vector hold. The witness is the call of claim C10, which increments
  \<^verbatim>\<open>gap[4]\<close> in a vector of size 3 and returns 1.
\<close>

theorem isap_raw_returns_valid_flow:
  assumes "valid_edges k es" and "s < k" and "t < k" and "s \<noteq> t"
    and "isap_raw m (build k es) s t = Some (Inr (fl, g'))"
    and "(\<Sum>(u, v, c)\<leftarrow>es. if u = s then c else 0) < 2147483648"
  shows "\<exists>F. is_flow k es s t F \<and> flow_value es s F = fl \<and> flow_value es t F = - fl"
proof -
  from assms(6) have "s \<noteq> t \<longrightarrow> (\<Sum>(u, v, c)\<leftarrow>es. if u = s then c else 0) < 2147483648" by simp
  from isap_flow_lemma[OF assms(1,2,3) disjI2[OF assms(5)] this] obtain F where
    "is_flow k es s t F"
    "\<forall>v < k. net_out (map (\<lambda>(u, v, c). (u, v)) es) F v = (if v = s then fl else 0) - (if v = t then fl else 0)"
    by blast
  with assms(2,3,4) show ?thesis by (auto simp: flow_value_def)
qed

theorem isap_raw_returns_valid_flow_witness:
  "valid_edges 3 [(0, 1, 1), (2, 1, 1)] \<and>
   map_option (map_sum id fst) (isap_raw (\<lambda>i. 0) (build 3 [(0, 1, 1), (2, 1, 1)]) 0 1) = Some (Inr 1) \<and>
   (\<exists>F. is_flow 3 [(0, 1, 1), (2, 1, 1)] 0 1 F \<and> flow_value [(0, 1, 1), (2, 1, 1)] 0 F = 1 \<and>
        flow_value [(0, 1, 1), (2, 1, 1)] 1 F = - 1)"
proof -
  have v: "valid_edges 3 [(0, 1, 1), (2, 1, 1)]" by (simp add: valid_edges_def)
  have r: "isap_raw (\<lambda>i. 0) (build 3 [(0, 1, 1), (2, 1, 1)]) 0 1 =
     Some (Inr (1, \<lparr>n_nodes = 3,
          adj = [[\<lparr>to = 1, cap = 1, flow = 1, rev_idx = 0\<rparr>],
                 [\<lparr>to = 0, cap = 0, flow = - 1, rev_idx = 0\<rparr>, \<lparr>to = 2, cap = 0, flow = 0, rev_idx = 0\<rparr>],
                 [\<lparr>to = 1, cap = 1, flow = 0, rev_idx = 1\<rparr>]],
          level = [4, 0, 1], gap = [1, 1, 0]\<rparr>))"
    by code_simp
  from isap_raw_returns_valid_flow[OF v _ _ _ r] v r show ?thesis by simp
qed

text \<open>
  The three assertions of isap\_test.cc: 12 on the 4-node graph, 23 on the 6-node graph,
  0 where the sink has no edge.
\<close>

theorem isap_test_assertions:
  "map_option (map_sum id fst)
     (isap (build 4 [(0, 1, 10), (0, 2, 2), (1, 2, 6), (1, 3, 8), (2, 3, 10)]) 0 3) = Some (Inr 12) \<and>
   map_option (map_sum id fst)
     (isap (build 6 [(0, 1, 16), (0, 2, 13), (1, 2, 10), (1, 3, 12), (2, 1, 4), (2, 4, 14),
                     (3, 2, 9), (3, 5, 20), (4, 3, 7), (4, 5, 4)]) 0 5) = Some (Inr 23) \<and>
   map_option (map_sum id fst) (isap (build 3 [(0, 1, 10)]) 0 2) = Some (Inr 0)"
  by code_simp

text \<open>The four assertions of \<^verbatim>\<open>test_has_feasible_flow\<close>.\<close>

theorem has_feasible_flow_test_assertions:
  "has_feasible_flow 4 0 3
     [\<lparr>e_u = 0, e_v = 1, lower = 5, upper = 10\<rparr>, \<lparr>e_u = 0, e_v = 2, lower = 2, upper = 8\<rparr>,
      \<lparr>e_u = 1, e_v = 3, lower = 3, upper = 6\<rparr>, \<lparr>e_u = 2, e_v = 3, lower = 4, upper = 9\<rparr>]
     = Some (Inr True) \<and>
   has_feasible_flow 3 0 2
     [\<lparr>e_u = 0, e_v = 1, lower = 5, upper = 3\<rparr>, \<lparr>e_u = 1, e_v = 2, lower = 1, upper = 4\<rparr>]
     = Some (Inr False) \<and>
   has_feasible_flow 4 0 3
     [\<lparr>e_u = 0, e_v = 1, lower = 6, upper = 10\<rparr>, \<lparr>e_u = 0, e_v = 2, lower = 4, upper = 8\<rparr>,
      \<lparr>e_u = 1, e_v = 3, lower = 1, upper = 3\<rparr>, \<lparr>e_u = 2, e_v = 3, lower = 2, upper = 3\<rparr>]
     = Some (Inr False) \<and>
   has_feasible_flow 4 0 3
     [\<lparr>e_u = 0, e_v = 1, lower = 2, upper = 5\<rparr>, \<lparr>e_u = 0, e_v = 2, lower = 1, upper = 3\<rparr>,
      \<lparr>e_u = 1, e_v = 3, lower = 1, upper = 3\<rparr>, \<lparr>e_u = 2, e_v = 3, lower = 2, upper = 4\<rparr>]
     = Some (Inr True)"
  by code_simp

text \<open>
  Source equal to sink. On the 3-node graph with the single edge (0,1,10),
  \<^verbatim>\<open>isap(1, 1)\<close> finds the current node at the sink with an empty path, adds the
  sentinel to the flow, and leaves the loop at the first retreat: it returns
  1000000000.
\<close>

theorem isap_source_is_sink_returns_sentinel:
  "map_option (map_sum id fst) (isap (build 3 [(0, 1, 10)]) 1 1) = Some (Inr 1000000000)"
  by code_simp

text \<open>
  Soundness of the feasibility check. For every input whose edges join nodes below \<open>k\<close>,
  with \<open>s\<close> and \<open>t\<close> below \<open>k\<close>, whose lower bounds are not negative and sum to less than
  \<open>2\<^sup>3\<^sup>1\<close> and whose upper bounds are below \<open>2\<^sup>3\<^sup>1\<close>: if \<^verbatim>\<open>has_feasible_flow\<close> returns
  \<open>true\<close>, there is an assignment of one value per edge, between the edge's bounds,
  conserved at every node other than \<open>s\<close> and \<open>t\<close>; and when \<open>s\<close> and \<open>t\<close> differ, the
  net flow it sends out of \<open>s\<close> lies between 0 and the sentinel capacity.
\<close>

theorem has_feasible_flow_sound:
  assumes r: "has_feasible_flow k s t edges = Some (Inr True)"
    and ve: "list_all (\<lambda>e. e_u e < k \<and> e_v e < k) edges" and s: "s < k" and t: "t < k"
    and sb: "small_bounds edges"
  shows "\<exists>f. feasible_assignment k s t edges f \<and>
     (s \<noteq> t \<longrightarrow> 0 \<le> net_out (map (\<lambda>e. (e_u e, e_v e)) edges) f s \<and>
                  net_out (map (\<lambda>e. (e_u e, e_v e)) edges) f s \<le> INF_cap)"
proof -
  from ve have ve': "\<forall>e \<in> set edges. e_u e < k \<and> e_v e < k" by (simp add: list_all_iff)
  from r have nlu: "\<not> list_ex (\<lambda>e. lower e > upper e) edges"
    by (auto simp: has_feasible_flow_def split: if_splits)
  then have lu: "list_all (\<lambda>e. lower e \<le> upper e) edges"
    by (auto simp: list_all_iff list_ex_iff not_less)
  then have lu': "\<forall>e \<in> set edges. lower e \<le> upper e" by (simp add: list_all_iff)
  from r nlu obtain g' where "isap (build (k + 2) (aux_edges k s t edges)) k (k + 1)
      = Some (Inr (pos_total (demands k edges) [0..<k], g'))"
    by (auto simp: has_feasible_flow_def aux_graph_eq[OF ve' sb lu'] split: option.splits sum.splits)
  then show ?thesis by (intro feasible_from_aux_flow[OF disjI1 lu ve s t sb])
qed

theorem has_feasible_flow_sound_witness:
  "small_bounds
     [\<lparr>e_u = 0, e_v = 1, lower = 5, upper = 10\<rparr>, \<lparr>e_u = 0, e_v = 2, lower = 2, upper = 8\<rparr>,
      \<lparr>e_u = 1, e_v = 3, lower = 3, upper = 6\<rparr>, \<lparr>e_u = 2, e_v = 3, lower = 4, upper = 9\<rparr>] \<and>
   has_feasible_flow 4 0 3
     [\<lparr>e_u = 0, e_v = 1, lower = 5, upper = 10\<rparr>, \<lparr>e_u = 0, e_v = 2, lower = 2, upper = 8\<rparr>,
      \<lparr>e_u = 1, e_v = 3, lower = 3, upper = 6\<rparr>, \<lparr>e_u = 2, e_v = 3, lower = 4, upper = 9\<rparr>]
     = Some (Inr True) \<and>
   (\<exists>f. feasible_assignment 4 0 3
     [\<lparr>e_u = 0, e_v = 1, lower = 5, upper = 10\<rparr>, \<lparr>e_u = 0, e_v = 2, lower = 2, upper = 8\<rparr>,
      \<lparr>e_u = 1, e_v = 3, lower = 3, upper = 6\<rparr>, \<lparr>e_u = 2, e_v = 3, lower = 4, upper = 9\<rparr>] f \<and>
     0 \<le> net_out [(0, 1), (0, 2), (1, 3), (2, 3)] f 0 \<and>
     net_out [(0, 1), (0, 2), (1, 3), (2, 3)] f 0 \<le> INF_cap)"
proof -
  define es where "es =
     [\<lparr>e_u = 0, e_v = 1, lower = 5, upper = 10\<rparr>, \<lparr>e_u = 0, e_v = 2, lower = 2, upper = 8\<rparr>,
      \<lparr>e_u = 1, e_v = 3, lower = 3, upper = 6\<rparr>, \<lparr>e_u = 2, e_v = 3, lower = 4, upper = 9\<rparr>]"
  have r: "has_feasible_flow 4 0 3 es = Some (Inr True)" unfolding es_def by code_simp
  have v: "list_all (\<lambda>e. e_u e < 4 \<and> e_v e < 4) es" unfolding es_def by simp
  have b: "small_bounds es" unfolding es_def by (simp add: small_bounds_def)
  have e: "map (\<lambda>e. (e_u e, e_v e)) es = [(0, 1), (0, 2), (1, 3), (2, 3)]" unfolding es_def by simp
  from has_feasible_flow_sound[OF r v _ _ b] r b show ?thesis
    unfolding e unfolding es_def by simp
qed

text \<open>
  The same for the check that runs past an access outside \<^verbatim>\<open>gap\<close>, whatever the cells
  around the vector hold. The witness is a call whose flow computation increments
  \<^verbatim>\<open>gap[8]\<close> in a vector of size 7 and then returns.
\<close>

theorem has_feasible_flow_raw_sound:
  assumes r: "has_feasible_flow_raw m k s t edges = Some (Inr True)"
    and ve: "list_all (\<lambda>e. e_u e < k \<and> e_v e < k) edges" and s: "s < k" and t: "t < k"
    and sb: "small_bounds edges"
  shows "\<exists>f. feasible_assignment k s t edges f \<and>
     (s \<noteq> t \<longrightarrow> 0 \<le> net_out (map (\<lambda>e. (e_u e, e_v e)) edges) f s \<and>
                  net_out (map (\<lambda>e. (e_u e, e_v e)) edges) f s \<le> INF_cap)"
proof -
  from ve have ve': "\<forall>e \<in> set edges. e_u e < k \<and> e_v e < k" by (simp add: list_all_iff)
  from r have nlu: "\<not> list_ex (\<lambda>e. lower e > upper e) edges"
    by (auto simp: has_feasible_flow_raw_def split: if_splits)
  then have lu: "list_all (\<lambda>e. lower e \<le> upper e) edges"
    by (auto simp: list_all_iff list_ex_iff not_less)
  then have lu': "\<forall>e \<in> set edges. lower e \<le> upper e" by (simp add: list_all_iff)
  from r nlu obtain g' where "isap_raw m (build (k + 2) (aux_edges k s t edges)) k (k + 1)
      = Some (Inr (pos_total (demands k edges) [0..<k], g'))"
    by (auto simp: has_feasible_flow_raw_def aux_graph_eq[OF ve' sb lu'] split: option.splits sum.splits)
  then show ?thesis by (intro feasible_from_aux_flow[OF disjI2 lu ve s t sb])
qed

theorem has_feasible_flow_raw_sound_witness:
  "small_bounds [\<lparr>e_u = 4, e_v = 0, lower = 1, upper = 2\<rparr>, \<lparr>e_u = 1, e_v = 4, lower = 1, upper = 1\<rparr>] \<and>
   has_feasible_flow_raw (\<lambda>i. 0) 5 1 0
     [\<lparr>e_u = 4, e_v = 0, lower = 1, upper = 2\<rparr>, \<lparr>e_u = 1, e_v = 4, lower = 1, upper = 1\<rparr>]
     = Some (Inr True) \<and>
   has_feasible_flow 5 1 0
     [\<lparr>e_u = 4, e_v = 0, lower = 1, upper = 2\<rparr>, \<lparr>e_u = 1, e_v = 4, lower = 1, upper = 1\<rparr>]
     = Some (Inl (GapOutOfBounds 8)) \<and>
   (\<exists>f. feasible_assignment 5 1 0
     [\<lparr>e_u = 4, e_v = 0, lower = 1, upper = 2\<rparr>, \<lparr>e_u = 1, e_v = 4, lower = 1, upper = 1\<rparr>] f \<and>
     0 \<le> net_out [(4, 0), (1, 4)] f 1 \<and> net_out [(4, 0), (1, 4)] f 1 \<le> INF_cap)"
proof -
  define es where "es =
     [\<lparr>e_u = 4, e_v = 0, lower = 1, upper = 2\<rparr>, \<lparr>e_u = 1, e_v = 4, lower = 1, upper = 1\<rparr>]"
  have r: "has_feasible_flow_raw (\<lambda>i. 0) 5 1 0 es = Some (Inr True)" unfolding es_def by code_simp
  have r': "has_feasible_flow 5 1 0 es = Some (Inl (GapOutOfBounds 8))" unfolding es_def by code_simp
  have v: "list_all (\<lambda>e. e_u e < 5 \<and> e_v e < 5) es" unfolding es_def by simp
  have b: "small_bounds es" unfolding es_def by (simp add: small_bounds_def)
  have e: "map (\<lambda>e. (e_u e, e_v e)) es = [(4, 0), (1, 4)]" unfolding es_def by simp
  from has_feasible_flow_raw_sound[OF r v _ _ b] r r' b show ?thesis
    unfolding e unfolding es_def by simp
qed

text \<open>
  The direction of the flow. For the single bounded edge (0,1,1,1) with source 1 and
  sink 0, the assignment 1 lies within the bounds and there is no node other than source
  and sink, but the flow runs from the sink to the source, and \<^verbatim>\<open>has_feasible_flow\<close>
  returns \<open>false\<close>: the edge from \<open>t\<close> back to \<open>s\<close> closes only flows from \<open>s\<close> to \<open>t\<close>.
\<close>

theorem has_feasible_flow_direction:
  "has_feasible_flow 2 1 0 [\<lparr>e_u = 0, e_v = 1, lower = 1, upper = 1\<rparr>] = Some (Inr False) \<and>
   feasible_assignment 2 1 0 [\<lparr>e_u = 0, e_v = 1, lower = 1, upper = 1\<rparr>] [1] \<and>
   net_out [(0, 1)] [1] 1 = - 1"
  by code_simp

text \<open>
  Sums beyond 32 bits. For the bounded edges (0,1,900000000,900000000)
  (2,1,900000000,900000000) (3,1,900000000,900000000) with 4 nodes, source 0 and sink 1,
  the third addition to the demand of node 1 wraps to a negative value; no node is left
  with a positive demand, and \<^verbatim>\<open>has_feasible_flow\<close> returns \<open>true\<close>, although no
  assignment within the bounds is conserved at node 2. And on the 2-node graph with three
  edges (0,1,1000000000), \<^verbatim>\<open>isap(0, 1)\<close> returns \<open>-1294967296\<close>.
\<close>

theorem has_feasible_flow_wraps:
  "has_feasible_flow 4 0 1
     [\<lparr>e_u = 0, e_v = 1, lower = 900000000, upper = 900000000\<rparr>,
      \<lparr>e_u = 2, e_v = 1, lower = 900000000, upper = 900000000\<rparr>,
      \<lparr>e_u = 3, e_v = 1, lower = 900000000, upper = 900000000\<rparr>] = Some (Inr True) \<and>
   (\<nexists>f. feasible_assignment 4 0 1
     [\<lparr>e_u = 0, e_v = 1, lower = 900000000, upper = 900000000\<rparr>,
      \<lparr>e_u = 2, e_v = 1, lower = 900000000, upper = 900000000\<rparr>,
      \<lparr>e_u = 3, e_v = 1, lower = 900000000, upper = 900000000\<rparr>] f) \<and>
   map_option (map_sum id fst)
     (isap (build 2 [(0, 1, 1000000000), (0, 1, 1000000000), (0, 1, 1000000000)]) 0 1)
     = Some (Inr (- 1294967296))"
proof -
  define es where "es =
     [\<lparr>e_u = 0, e_v = 1, lower = 900000000, upper = 900000000\<rparr>,
      \<lparr>e_u = 2, e_v = 1, lower = 900000000, upper = 900000000\<rparr>,
      \<lparr>e_u = 3, e_v = 1, lower = 900000000, upper = 900000000\<rparr>]"
  have r: "has_feasible_flow 4 0 1 es = Some (Inr True)" unfolding es_def by code_simp
  have n: "\<not> feasible_assignment 4 0 1 es f" for f
  proof
    assume fa: "feasible_assignment 4 0 1 es f"
    then obtain a b c where f: "f = [a, b, c]" and b: "b = 900000000"
      by (auto simp: feasible_assignment_def es_def list_all2_Cons1)
    have "(2 :: nat) \<in> set [0..<4]" by simp
    with fa have "net_out (map (\<lambda>e. (e_u e, e_v e)) es) f 2 = 0"
      unfolding feasible_assignment_def list_all_iff by fastforce
    with f b show False by (simp add: es_def net_out_simps)
  qed
  have w: "map_option (map_sum id fst)
     (isap (build 2 [(0, 1, 1000000000), (0, 1, 1000000000), (0, 1, 1000000000)]) 0 1)
     = Some (Inr (- 1294967296))"
    by code_simp
  from r n w show ?thesis unfolding es_def by blast
qed

end
